theory Spec2Isabelle
  imports Complex_Main
begin

section \<open>The hexagonal-grid pathfinder of \<^verbatim>\<open>src/game/AStar.ts\<close>\<close>

text \<open>
  Coordinates are integers. The source renders a coordinate as the string
  \<^verbatim>\<open>`${x},${y}`\<close> before using it as a key of \<^verbatim>\<open>SimpleSet\<close> and \<^verbatim>\<open>SimpleMap\<close>;
  that rendering is one-to-one on pairs of integers, so a key is modelled as the pair.
\<close>

type_synonym pos = "int \<times> int"

text \<open>
  A \<^verbatim>\<open>PathNode\<close> object. Node objects are mutable and shared by reference
  (\<^verbatim>\<open>openList\<close>, \<^verbatim>\<open>openSet\<close> and the \<^verbatim>\<open>parent\<close> links point to the same objects),
  so they live in an explicit store and \<^verbatim>\<open>parent\<close> is an address into it.
  The fields \<^verbatim>\<open>g\<close> counts steps; \<^verbatim>\<open>h\<close> and \<^verbatim>\<open>f\<close> may be half-integers.
\<close>

record PathNode =
  node_x :: int
  node_y :: int
  node_g :: int
  node_h :: rat
  node_f :: rat
  node_parent :: "nat option"

type_synonym store = "PathNode list"

datatype error =
    MapSizeError          \<comment> \<open>the constructor's \<^verbatim>\<open>throw\<close>\<close>
  | StartInvalid          \<comment> \<open>start outside the map\<close>
  | EndInvalid            \<comment> \<open>end outside the map\<close>
  | StartObstacle         \<comment> \<open>start is an obstacle\<close>
  | EndObstacle           \<comment> \<open>end is an obstacle\<close>
  | TypeError             \<comment> \<open>a property read on \<^verbatim>\<open>undefined\<close>\<close>

text \<open>The object: \<^verbatim>\<open>endPos\<close> is unassigned until the first \<^verbatim>\<open>findPath\<close>.\<close>

record AStar =
  mapSize :: int
  obstacles :: "pos set"
  endPos :: "pos option"

text \<open>\<^verbatim>\<open>new SimpleSet(values)\<close>: the optional array, added element by element.\<close>

definition SimpleSet_new :: "'a list option \<Rightarrow> 'a set" where
  "SimpleSet_new values = (case values of None \<Rightarrow> {} | Some vs \<Rightarrow> foldl (\<lambda>s v. insert v s) {} vs)"

definition oddRowDirections :: "pos list" where
  "oddRowDirections = [(0, -1), (1, -1), (1, 0), (1, 1), (0, 1), (-1, 0)]"

definition evenRowDirections :: "pos list" where
  "evenRowDirections = [(-1, -1), (0, -1), (1, 0), (0, 1), (-1, 1), (-1, 0)]"

definition AStar_new :: "int \<Rightarrow> pos list option \<Rightarrow> error + AStar" where
  "AStar_new msize obs =
     (if msize \<le> 0 then Inl MapSizeError
      else Inr \<lparr>mapSize = msize, obstacles = SimpleSet_new obs, endPos = None\<rparr>)"

text \<open>
  \<^verbatim>\<open>calculateHeuristic\<close> reads \<^verbatim>\<open>this.endPos\<close>, which \<^verbatim>\<open>findPath\<close> assigns before
  every call; here it is the first argument.
\<close>

definition calculateHeuristic :: "pos \<Rightarrow> int \<Rightarrow> int \<Rightarrow> rat" where
  "calculateHeuristic e px py =
     (let dx = \<bar>px - fst e\<bar>; dy = \<bar>py - snd e\<bar>
      in of_int (max dx dy) + of_int (min dx dy) / 2)"

definition isValidCoordinate :: "AStar \<Rightarrow> int \<Rightarrow> int \<Rightarrow> bool" where
  "isValidCoordinate a px py \<longleftrightarrow> px \<ge> 0 \<and> px < mapSize a \<and> py \<ge> 0 \<and> py < mapSize a"

definition isValidPosition :: "AStar \<Rightarrow> int \<Rightarrow> int \<Rightarrow> bool" where
  "isValidPosition a px py \<longleftrightarrow> isValidCoordinate a px py \<and> (px, py) \<notin> obstacles a"

text \<open>JavaScript's \<^verbatim>\<open>%\<close> takes the sign of the dividend.\<close>

definition js_rem :: "int \<Rightarrow> int \<Rightarrow> int" where
  "js_rem m n = sgn m * (\<bar>m\<bar> mod \<bar>n\<bar>)"

definition fresh_node :: "int \<Rightarrow> int \<Rightarrow> PathNode" where
  "fresh_node px py =
     \<lparr>node_x = px, node_y = py, node_g = 0, node_h = 0, node_f = 0, node_parent = None\<rparr>"

definition getNeighbors :: "AStar \<Rightarrow> PathNode \<Rightarrow> PathNode list" where
  "getNeighbors a node =
     (let directions = (if js_rem (node_y node) 2 \<noteq> 0 then oddRowDirections else evenRowDirections)
      in concat (map (\<lambda>dir.
           let newX = node_x node + fst dir; newY = node_y node + snd dir
           in if isValidPosition a newX newY then [fresh_node newX newY] else []) directions))"

fun scan_min :: "store \<Rightarrow> nat \<Rightarrow> nat list \<Rightarrow> nat" where
  "scan_min st minNode [] = minNode"
| "scan_min st minNode (r # rs) =
     scan_min st (if node_f (st ! r) < node_f (st ! minNode) then r else minNode) rs"

text \<open>\<^verbatim>\<open>list[0]\<close> of an empty array is \<^verbatim>\<open>undefined\<close>, and so is the result.\<close>

definition getMinFNode :: "store \<Rightarrow> nat list \<Rightarrow> nat option" where
  "getMinFNode st list = (case list of [] \<Rightarrow> None | r # rs \<Rightarrow> Some (scan_min st r rs))"

fun removeFromOpenList :: "store \<Rightarrow> nat list \<Rightarrow> nat \<Rightarrow> nat list" where
  "removeFromOpenList st [] n = []"
| "removeFromOpenList st (r # rs) n =
     (if node_x (st ! r) = node_x (st ! n) \<and> node_y (st ! r) = node_y (st ! n) then rs
      else r # removeFromOpenList st rs n)"

text \<open>
  \<^verbatim>\<open>buildPath\<close> follows the \<^verbatim>\<open>parent\<close> references until \<^verbatim>\<open>null\<close>, putting each node in front.
  The loop has no bound of its own, so a walk that never ends is the value \<open>None\<close>.
\<close>

partial_function (option) buildPath_from :: "store \<Rightarrow> nat option \<Rightarrow> PathNode list \<Rightarrow> PathNode list option" where
  "buildPath_from st current path =
     (case current of
        None \<Rightarrow> Some path
      | Some c \<Rightarrow> buildPath_from st (node_parent (st ! c)) ((st ! c) # path))"

definition buildPath :: "store \<Rightarrow> nat \<Rightarrow> PathNode list option" where
  "buildPath st endNode = buildPath_from st (Some endNode) []"

text \<open>The local state of one \<^verbatim>\<open>findPath\<close> call, with the node objects it has kept.\<close>

record search =
  nodes :: store
  openList :: "nat list"
  openSet :: "pos \<rightharpoonup> nat"
  closedSet :: "pos set"

text \<open>The body of the loop over the neighbours of \<^verbatim>\<open>currentNode\<close>.\<close>

definition visitNeighbor :: "pos \<Rightarrow> nat \<Rightarrow> search \<Rightarrow> PathNode \<Rightarrow> search" where
  "visitNeighbor e currentNode s neighbor =
     (let neighborKey = (node_x neighbor, node_y neighbor)
      in if neighborKey \<in> closedSet s then s
         else
           let gScore = node_g (nodes s ! currentNode) + 1
           in case openSet s neighborKey of
                None \<Rightarrow>
                  let hv = calculateHeuristic e (node_x neighbor) (node_y neighbor);
                      n = neighbor\<lparr>node_g := gScore, node_h := hv, node_f := of_int gScore + hv,
                                   node_parent := Some currentNode\<rparr>;
                      r = length (nodes s)
                  in s\<lparr>nodes := nodes s @ [n], openList := openList s @ [r],
                        openSet := (openSet s)(neighborKey \<mapsto> r)\<rparr>
              | Some existingNode \<Rightarrow>
                  if gScore < node_g (nodes s ! existingNode) then
                    s\<lparr>nodes := (nodes s)[existingNode := (nodes s ! existingNode)
                          \<lparr>node_g := gScore,
                           node_f := of_int gScore + node_h (nodes s ! existingNode),
                           node_parent := Some currentNode\<rparr>]\<rparr>
                  else s)"

text \<open>One expansion: the part of the loop body after the test for the end.\<close>

definition expand :: "AStar \<Rightarrow> pos \<Rightarrow> nat \<Rightarrow> search \<Rightarrow> search" where
  "expand a e currentNode s =
     (let currentKey = (node_x (nodes s ! currentNode), node_y (nodes s ! currentNode));
          s1 = s\<lparr>openList := removeFromOpenList (nodes s) (openList s) currentNode,
                  openSet := (openSet s)(currentKey := None),
                  closedSet := insert currentKey (closedSet s)\<rparr>
      in foldl (visitNeighbor e currentNode) s1 (getNeighbors a (nodes s1 ! currentNode)))"

text \<open>
  One turn of the \<^verbatim>\<open>while\<close> loop: it leaves the loop with a result (\<open>Inl\<close>), or goes on
  with the next state (\<open>Inr\<close>). The result is \<open>Inr None\<close> for \<^verbatim>\<open>null\<close>,
  \<open>Inr (Some r)\<close> for \<^verbatim>\<open>return this.buildPath(r)\<close>.
\<close>

definition loop_body :: "AStar \<Rightarrow> pos \<Rightarrow> search \<Rightarrow> (error + nat option) + search" where
  "loop_body a e s =
     (if \<not> length (openList s) > 0 then Inl (Inr None)
      else case getMinFNode (nodes s) (openList s) of
             None \<Rightarrow> Inl (Inl TypeError)
           | Some currentNode \<Rightarrow>
               if node_x (nodes s ! currentNode) = fst e \<and> node_y (nodes s ! currentNode) = snd e
               then Inl (Inr (Some currentNode))
               else Inr (expand a e currentNode s))"

partial_function (option) main_loop :: "AStar \<Rightarrow> pos \<Rightarrow> search \<Rightarrow> (error + PathNode list option) option" where
  "main_loop a e s =
     (case loop_body a e s of
        Inl (Inl err) \<Rightarrow> Some (Inl err)
      | Inl (Inr None) \<Rightarrow> Some (Inr None)
      | Inl (Inr (Some r)) \<Rightarrow> map_option (\<lambda>p. Inr (Some p)) (buildPath (nodes s) r)
      | Inr s' \<Rightarrow> main_loop a e s')"

definition initial_search :: "pos \<Rightarrow> pos \<Rightarrow> search" where
  "initial_search start e =
     (let hv = calculateHeuristic e (fst start) (snd start);
          startNode = \<lparr>node_x = fst start, node_y = snd start, node_g = 0, node_h = hv,
                       node_f = 0, node_parent = None\<rparr>;
          startNode = startNode\<lparr>node_f := of_int (node_g startNode) + node_h startNode\<rparr>
      in \<lparr>nodes = [startNode], openList = [0], openSet = [start \<mapsto> 0], closedSet = {}\<rparr>)"

text \<open>
  \<^verbatim>\<open>findPath\<close>: the result (\<open>None\<close> if the call never returns; otherwise the error thrown,
  \<^verbatim>\<open>null\<close> or the path) and the object afterwards.
\<close>

definition findPath :: "AStar \<Rightarrow> pos \<Rightarrow> pos \<Rightarrow> (error + PathNode list option) option \<times> AStar" where
  "findPath a start e =
     (if \<not> isValidCoordinate a (fst start) (snd start) then (Some (Inl StartInvalid), a)
      else if \<not> isValidCoordinate a (fst e) (snd e) then (Some (Inl EndInvalid), a)
      else if start \<in> obstacles a then (Some (Inl StartObstacle), a)
      else if e \<in> obstacles a then (Some (Inl EndObstacle), a)
      else
        let a' = a\<lparr>endPos := Some e\<rparr>
        in (main_loop a' e (initial_search start e), a'))"

declare buildPath_from.simps [code]
declare main_loop.simps [code]

subsection \<open>The grid as a graph\<close>

definition node_key :: "PathNode \<Rightarrow> pos" where
  "node_key n = (node_x n, node_y n)"

text \<open>The cells \<^verbatim>\<open>getNeighbors\<close> yields for the cell \<open>p\<close>, in its order.\<close>

definition neighbor_keys :: "AStar \<Rightarrow> pos \<Rightarrow> pos list" where
  "neighbor_keys a p = map node_key (getNeighbors a (fresh_node (fst p) (snd p)))"

text \<open>A walk: each cell is followed by one of its neighbours, under the rule of its own row.\<close>

fun hex_path :: "AStar \<Rightarrow> pos list \<Rightarrow> bool" where
  "hex_path a [] = True"
| "hex_path a [p] = True"
| "hex_path a (p # q # ps) = (q \<in> set (neighbor_keys a p) \<and> hex_path a (q # ps))"

definition valid_input :: "AStar \<Rightarrow> pos \<Rightarrow> pos \<Rightarrow> bool" where
  "valid_input a start e \<longleftrightarrow>
     isValidCoordinate a (fst start) (snd start) \<and> isValidCoordinate a (fst e) (snd e) \<and>
     start \<notin> obstacles a \<and> e \<notin> obstacles a"

text \<open>The state after \<open>n\<close> expansions, if the loop makes that many.\<close>

fun expansions :: "nat \<Rightarrow> AStar \<Rightarrow> pos \<Rightarrow> search \<Rightarrow> search option" where
  "expansions 0 a e s = Some s"
| "expansions (Suc n) a e s =
     (case loop_body a e s of Inl r \<Rightarrow> None | Inr s' \<Rightarrow> expansions n a e s')"

subsection \<open>Invariants of the search loop\<close>

text \<open>
  The keys of the open list; a well-formed node (a passable cell, with a parent that has
  left the open list, is one step cheaper and has the node among its neighbours, or no
  parent for the start node); the invariant of the \<^verbatim>\<open>while\<close> loop; what the loop over
  the neighbours keeps fixed; the cells of the map; and the invariant that the closed
  cells have all their neighbours closed or open.
\<close>

definition open_keys :: "search \<Rightarrow> pos list" where
  "open_keys s = map (\<lambda>r. node_key (nodes s ! r)) (openList s)"

definition wf_node :: "AStar \<Rightarrow> pos \<Rightarrow> search \<Rightarrow> nat \<Rightarrow> bool" where
  "wf_node a start s r \<longleftrightarrow>
     isValidPosition a (node_x (nodes s ! r)) (node_y (nodes s ! r)) \<and>
     0 \<le> node_g (nodes s ! r) \<and>
     (case node_parent (nodes s ! r) of
        None \<Rightarrow> node_key (nodes s ! r) = start \<and> node_g (nodes s ! r) = 0
      | Some p \<Rightarrow> p < length (nodes s) \<and> p \<notin> set (openList s) \<and>
                 node_g (nodes s ! r) = node_g (nodes s ! p) + 1 \<and>
                 node_key (nodes s ! r) \<in> set (neighbor_keys a (node_key (nodes s ! p))))"

definition search_inv :: "AStar \<Rightarrow> pos \<Rightarrow> search \<Rightarrow> bool" where
  "search_inv a start s \<longleftrightarrow>
     (\<forall>r\<in>set (openList s). r < length (nodes s) \<and> node_key (nodes s ! r) \<notin> closedSet s) \<and>
     distinct (open_keys s) \<and>
     (\<forall>k r. openSet s k = Some r \<longleftrightarrow> r \<in> set (openList s) \<and> node_key (nodes s ! r) = k) \<and>
     (\<forall>r<length (nodes s). wf_node a start s r) \<and>
     finite (closedSet s) \<and> (\<forall>k\<in>closedSet s. isValidCoordinate a (fst k) (snd k))"

definition visit_rel :: "nat \<Rightarrow> search \<Rightarrow> search \<Rightarrow> bool" where
  "visit_rel cur s s' \<longleftrightarrow>
     cur < length (nodes s') \<and> cur \<notin> set (openList s') \<and> nodes s' ! cur = nodes s ! cur \<and>
     closedSet s' = closedSet s \<and> dom (openSet s) \<subseteq> dom (openSet s')"

definition cells :: "AStar \<Rightarrow> pos set" where
  "cells a = {k. isValidCoordinate a (fst k) (snd k)}"

definition frontier_inv :: "AStar \<Rightarrow> pos \<Rightarrow> pos \<Rightarrow> search \<Rightarrow> bool" where
  "frontier_inv a start e s \<longleftrightarrow>
     e \<notin> closedSet s \<and> (start \<in> closedSet s \<or> start \<in> dom (openSet s)) \<and>
     (\<forall>k\<in>closedSet s. \<forall>k'\<in>set (neighbor_keys a k). k' \<in> closedSet s \<or> k' \<in> dom (openSet s))"

text \<open>Reachability along the neighbour relation of the grid.\<close>

definition reachable :: "AStar \<Rightarrow> pos \<Rightarrow> pos \<Rightarrow> bool" where
  "reachable a = (\<lambda>p q. q \<in> set (neighbor_keys a p))\<^sup>*\<^sup>*"

section \<open>The bucket search of \<^verbatim>\<open>Main\<close>\<close>

text \<open>
  A \<^verbatim>\<open>MapNode\<close> object; the objects of a graph sit in a store and refer to each other by
  position (\<^verbatim>\<open>nodes\<close>, \<^verbatim>\<open>prev\<close>). The fields \<^verbatim>\<open>pos\<close> and \<^verbatim>\<open>c\<close> are never read or written
  and are left out. \<^verbatim>\<open>createNodes\<close> is modelled for \<open>0 < w\<close> (JavaScript's \<^verbatim>\<open>i % 0\<close> is
  \<^verbatim>\<open>NaN\<close>); \<^verbatim>\<open>data[idx] == 0\<close> is false for an index outside the array. In \<^verbatim>\<open>search\<close>
  a bucket index outside the array \<^verbatim>\<open>opens\<close> makes \<^verbatim>\<open>opens[idx].push\<close> throw a TypeError,
  with the node already stamped. The loops of \<^verbatim>\<open>search\<close> have no bound of their own, so
  they are partial functions and a run that never returns has the value \<open>None\<close>.
\<close>

record MapNode =
  mn_nodes :: "nat list"
  mn_x :: int
  mn_y :: int
  mn_v :: int
  mn_prev :: "nat option"
  mn_cost :: int
  mn_token :: int

definition idx_to_pos_x :: "nat \<Rightarrow> nat \<Rightarrow> nat \<Rightarrow> nat" where
  "idx_to_pos_x idx w h = idx mod w"

definition idx_to_pos_y :: "nat \<Rightarrow> nat \<Rightarrow> nat \<Rightarrow> nat" where
  "idx_to_pos_y idx w h = idx div w"

definition pos_to_idx :: "nat \<Rightarrow> nat \<Rightarrow> nat \<Rightarrow> nat \<Rightarrow> nat" where
  "pos_to_idx px py w h = px + py * w"

definition push_if_free :: "int list \<Rightarrow> nat \<Rightarrow> nat list" where
  "push_if_free data idx = (if idx < length data \<and> data ! idx = 0 then [idx] else [])"

definition node_links :: "nat \<Rightarrow> nat \<Rightarrow> int list \<Rightarrow> nat \<Rightarrow> nat list" where
  "node_links w h data i =
     (let px = idx_to_pos_x i w h; py = idx_to_pos_y i w h
      in (if px > 0 then push_if_free data (pos_to_idx (px - 1) py w h) else []) @
         (if int px < int w - 1 then push_if_free data (pos_to_idx (px + 1) py w h) else []) @
         (if py > 0 then
            push_if_free data (pos_to_idx px (py - 1) w h) @
            (if int px < int w - 1 then push_if_free data (pos_to_idx (px + 1) (py - 1) w h) else [])
          else []) @
         (if int py < int h - 1 then
            push_if_free data (pos_to_idx px (py + 1) w h) @
            (if int px < int w - 1 then push_if_free data (pos_to_idx (px + 1) (py + 1) w h) else [])
          else []))"

definition createNodes :: "nat \<Rightarrow> nat \<Rightarrow> int list \<Rightarrow> MapNode list" where
  "createNodes w h data =
     map (\<lambda>i. \<lparr>mn_nodes = node_links w h data i, mn_x = int (i mod w), mn_y = int (i div w),
                mn_v = data ! i, mn_prev = None, mn_cost = 0, mn_token = 0\<rparr>) [0..<length data]"

definition get_cost :: "int \<Rightarrow> int \<Rightarrow> int \<Rightarrow> int \<Rightarrow> int" where
  "get_cost start_x start_y end_x end_y = \<bar>end_x - start_x\<bar> + \<bar>end_y - start_y\<bar>"

record buckets =
  store :: "MapNode list"
  opens :: "nat list list"
  base_cost :: int
  searched :: "nat list"

fun visit_links :: "int \<Rightarrow> int \<Rightarrow> int \<Rightarrow> nat \<Rightarrow> nat list \<Rightarrow> buckets \<Rightarrow> buckets + buckets" where
  "visit_links tok end_x end_y cur [] s = Inr s"
| "visit_links tok end_x end_y cur (i # rest) s =
     (if tok > mn_token (store s ! i) then
        let st = (store s)[i := (store s ! i)\<lparr>mn_token := tok,
                     mn_cost := mn_cost (store s ! cur) + 1, mn_prev := Some cur\<rparr>];
            idx = get_cost (mn_x (st ! i)) (mn_y (st ! i)) end_x end_y + mn_cost (st ! i) - base_cost s
        in if 0 \<le> idx \<and> idx < int (length (opens s)) then
             visit_links tok end_x end_y cur rest
               (s\<lparr>store := st, opens := (opens s)[nat idx := (opens s ! nat idx) @ [i]]\<rparr>)
           else Inl (s\<lparr>store := st\<rparr>)
      else visit_links tok end_x end_y cur rest s)"

partial_function (option) walk_prev :: "MapNode list \<Rightarrow> nat \<Rightarrow> nat \<Rightarrow> nat list \<Rightarrow> nat list option" where
  "walk_prev st start cur path =
     (case mn_prev (st ! cur) of
        None \<Rightarrow> Some path
      | Some p \<Rightarrow> if p \<noteq> start then walk_prev st start p (path @ [p]) else Some path)"

definition search_body ::
    "int \<Rightarrow> nat \<Rightarrow> int \<Rightarrow> int \<Rightarrow> buckets \<Rightarrow> ((error + nat option) \<times> buckets) + buckets" where
  "search_body tok e end_x end_y s =
     (if opens s ! 0 = [] \<and> opens s ! 1 = [] \<and> opens s ! 2 = [] \<and> opens s ! 3 = []
      then Inl (Inr None, s)
      else if opens s ! 0 \<noteq> [] then
        let cur = last (opens s ! 0);
            s1 = s\<lparr>opens := (opens s)[0 := butlast (opens s ! 0)], searched := searched s @ [cur]\<rparr>
        in if cur = e then Inl (Inr (Some cur), s1)
           else
             case visit_links tok end_x end_y cur (mn_nodes (store s1 ! cur)) s1 of
               Inl s2 \<Rightarrow> Inl (Inl TypeError, s2)
             | Inr s2 \<Rightarrow> Inr s2
      else Inr (s\<lparr>base_cost := base_cost s + 1, opens := tl (opens s) @ [[]]\<rparr>))"

partial_function (option) search_loop ::
    "int \<Rightarrow> nat \<Rightarrow> nat \<Rightarrow> int \<Rightarrow> int \<Rightarrow> buckets \<Rightarrow> ((error + nat list option) \<times> MapNode list) option" where
  "search_loop tok start e end_x end_y s =
     (case search_body tok e end_x end_y s of
        Inl (Inl err, s') \<Rightarrow> Some (Inl err, store s')
      | Inl (Inr None, s') \<Rightarrow> Some (Inr None, store s')
      | Inl (Inr (Some cur), s') \<Rightarrow>
          map_option (\<lambda>path. (Inr (Some path), store s')) (walk_prev (store s') start cur [cur])
      | Inr s' \<Rightarrow> search_loop tok start e end_x end_y s')"

definition search_init :: "MapNode list \<Rightarrow> nat \<Rightarrow> nat \<Rightarrow> buckets" where
  "search_init st start e =
     \<lparr>store = st, opens = [[start], [], [], []],
      base_cost = get_cost (mn_x (st ! start)) (mn_y (st ! start)) (mn_x (st ! e)) (mn_y (st ! e)),
      searched = []\<rparr>"

definition search :: "int \<Rightarrow> MapNode list \<Rightarrow> nat \<Rightarrow> nat \<Rightarrow> ((error + nat list option) \<times> MapNode list) option" where
  "search search_token st start e =
     search_loop search_token start e (mn_x (st ! e)) (mn_y (st ! e)) (search_init st start e)"

declare walk_prev.simps [code]

declare search_loop.simps [code]

subsection \<open>Invariants of the bucket search\<close>

text \<open>
  A graph whose links stay inside the store; a store as \<^verbatim>\<open>createNodes\<close> leaves it (no
  node stamped, no \<^verbatim>\<open>prev\<close>, cost 0); reachability along the links; the chain of
  \<^verbatim>\<open>prev\<close> links from a node back to the start; and the invariants of the loop, in
  parts. \<open>pop0\<close>, \<open>shift\<close> and \<open>mark\<close> name the three state changes of the loop body.
\<close>

definition graph_ok :: "MapNode list \<Rightarrow> bool" where
  "graph_ok st \<longleftrightarrow> (\<forall>i<length st. \<forall>j\<in>set (mn_nodes (st ! i)). j < length st)"

definition fresh :: "int \<Rightarrow> MapNode list \<Rightarrow> bool" where
  "fresh tok st \<longleftrightarrow>
     (\<forall>i<length st. mn_token (st ! i) < tok \<and> mn_prev (st ! i) = None \<and> mn_cost (st ! i) = 0)"

definition link_reach :: "MapNode list \<Rightarrow> nat \<Rightarrow> nat \<Rightarrow> bool" where
  "link_reach st = (\<lambda>p q. q \<in> set (mn_nodes (st ! p)))\<^sup>*\<^sup>*"

fun back_chain :: "MapNode list \<Rightarrow> nat \<Rightarrow> nat list \<Rightarrow> bool" where
  "back_chain st start [] = False"
| "back_chain st start [n] =
     (mn_prev (st ! n) = Some start \<and> n \<in> set (mn_nodes (st ! start)) \<and> n \<noteq> start)"
| "back_chain st start (n # m # rest) =
     (mn_prev (st ! n) = Some m \<and> n \<in> set (mn_nodes (st ! m)) \<and> n \<noteq> start \<and>
      mn_cost (st ! n) = mn_cost (st ! m) + 1 \<and> back_chain st start (m # rest))"

definition in_bucket :: "buckets \<Rightarrow> nat \<Rightarrow> bool" where
  "in_bucket s n \<longleftrightarrow> (\<exists>b\<in>set (opens s). n \<in> set b)"

definition inv_shape :: "int \<Rightarrow> nat \<Rightarrow> MapNode list \<Rightarrow> buckets \<Rightarrow> bool" where
  "inv_shape tok start st0 s \<longleftrightarrow>
     length (opens s) = 4 \<and> length (store s) = length st0 \<and> start < length st0 \<and>
     (\<forall>i<length st0. mn_nodes (store s ! i) = mn_nodes (st0 ! i) \<and>
        mn_x (store s ! i) = mn_x (st0 ! i) \<and> mn_y (store s ! i) = mn_y (st0 ! i)) \<and>
     (\<forall>i<length st0. mn_token (store s ! i) \<noteq> tok \<longrightarrow> store s ! i = st0 ! i) \<and>
     (\<forall>n. in_bucket s n \<longrightarrow> n < length st0 \<and> mn_token (store s ! n) = tok) \<and>
     (\<forall>n\<in>set (searched s). n < length st0 \<and> (n = start \<or> mn_token (store s ! n) = tok)) \<and>
     start \<in> set (searched s)"

definition inv_marked :: "int \<Rightarrow> nat \<Rightarrow> MapNode list \<Rightarrow> buckets \<Rightarrow> bool" where
  "inv_marked tok start st0 s \<longleftrightarrow>
     0 \<le> mn_cost (store s ! start) \<and>
     (\<forall>i<length st0. mn_token (store s ! i) = tok \<longrightarrow>
        (\<exists>p. mn_prev (store s ! i) = Some p \<and> p < length st0 \<and> i \<in> set (mn_nodes (st0 ! p)) \<and>
             (p = start \<or> mn_token (store s ! p) = tok) \<and>
             (i \<noteq> start \<longrightarrow> 1 \<le> mn_cost (store s ! i) \<and>
                (p \<noteq> start \<longrightarrow> mn_cost (store s ! i) = mn_cost (store s ! p) + 1))))"

definition inv_pending :: "int \<Rightarrow> nat \<Rightarrow> MapNode list \<Rightarrow> buckets \<Rightarrow> bool" where
  "inv_pending tok start st0 s \<longleftrightarrow>
     (\<forall>i<length st0. mn_token (store s ! i) = tok \<longrightarrow>
        link_reach st0 start i \<and> (i \<in> set (searched s) \<or> in_bucket s i))"

definition inv_closed :: "int \<Rightarrow> MapNode list \<Rightarrow> nat set \<Rightarrow> buckets \<Rightarrow> bool" where
  "inv_closed tok st0 X s \<longleftrightarrow>
     X \<subseteq> set (searched s) \<and>
     (\<forall>n\<in>X. \<forall>j\<in>set (mn_nodes (st0 ! n)). mn_token (store s ! j) = tok)"

definition bucket_inv :: "int \<Rightarrow> nat \<Rightarrow> MapNode list \<Rightarrow> nat set \<Rightarrow> buckets \<Rightarrow> bool" where
  "bucket_inv tok start st0 X s \<longleftrightarrow>
     inv_shape tok start st0 s \<and> inv_marked tok start st0 s \<and> inv_pending tok start st0 s \<and>
     inv_closed tok st0 X s"

definition mark :: "int \<Rightarrow> nat \<Rightarrow> nat \<Rightarrow> nat \<Rightarrow> buckets \<Rightarrow> buckets" where
  "mark tok cur i k s =
     s\<lparr>store := (store s)[i := (store s ! i)\<lparr>mn_token := tok,
                     mn_cost := mn_cost (store s ! cur) + 1, mn_prev := Some cur\<rparr>],
       opens := (opens s)[k := (opens s ! k) @ [i]]\<rparr>"

definition unmarked :: "int \<Rightarrow> buckets \<Rightarrow> nat set" where
  "unmarked tok s = {i. i < length (store s) \<and> mn_token (store s ! i) \<noteq> tok}"

definition pop0 :: "buckets \<Rightarrow> buckets" where
  "pop0 s = s\<lparr>opens := (opens s)[0 := butlast (opens s ! 0)],
              searched := searched s @ [last (opens s ! 0)]\<rparr>"

definition shift :: "buckets \<Rightarrow> buckets" where
  "shift s = s\<lparr>base_cost := base_cost s + 1, opens := tl (opens s) @ [[]]\<rparr>"

definition m_items :: "buckets \<Rightarrow> nat" where
  "m_items s = length (opens s ! 0) + length (opens s ! 1) + length (opens s ! 2) + length (opens s ! 3)"

definition m_weight :: "buckets \<Rightarrow> nat" where
  "m_weight s = length (opens s ! 1) + 2 * length (opens s ! 2) + 3 * length (opens s ! 3)"

definition bucket_post :: "MapNode list \<Rightarrow> nat \<Rightarrow> nat \<Rightarrow> (error + nat list option) \<Rightarrow> MapNode list \<Rightarrow> bool" where
  "bucket_post st0 start e res st' \<longleftrightarrow>
     res = Inl TypeError \<or> (res = Inr None \<and> \<not> link_reach st0 start e) \<or>
     (\<exists>rest. res = Inr (Some (e # rest)) \<and> back_chain st' start (e # rest) \<and> link_reach st0 start e)"

section \<open>The two searches on one graph\<close>

text \<open>
  \<^verbatim>\<open>createNodes\<close> numbers the cells row by row: the node \<open>i\<close> of a map of width \<open>w\<close> is
  the cell \<open>(i mod w, i div w)\<close>.
\<close>

definition cell :: "nat \<Rightarrow> nat \<Rightarrow> pos" where
  "cell w i = (int (i mod w), int (i div w))"

definition cell_index :: "nat \<Rightarrow> pos \<Rightarrow> nat" where
  "cell_index w p = nat (fst p) + nat (snd p) * w"

text \<open>
  The two searches have the same scenario when the array given to \<^verbatim>\<open>createNodes\<close> marks
  as free (0) exactly the cells of the square map that are not obstacles, and when every
  free cell has the same neighbours along the links of \<^verbatim>\<open>createNodes\<close> as
  \<^verbatim>\<open>getNeighbors\<close> yields for it.
\<close>

definition same_cells :: "AStar \<Rightarrow> int list \<Rightarrow> bool" where
  "same_cells a data \<longleftrightarrow>
     0 < mapSize a \<and> length data = nat (mapSize a) * nat (mapSize a) \<and>
     (\<forall>i<length data. (data ! i = 0) = (cell (nat (mapSize a)) i \<notin> obstacles a))"

definition same_links :: "AStar \<Rightarrow> int list \<Rightarrow> bool" where
  "same_links a data \<longleftrightarrow>
     (\<forall>i<length data. data ! i = 0 \<longrightarrow>
        set (map (cell (nat (mapSize a))) (node_links (nat (mapSize a)) (nat (mapSize a)) data i)) =
        set (neighbor_keys a (cell (nat (mapSize a)) i)))"

text \<open>
  Steps along an axis and diagonal steps; the difference of two cells; a walk by steps
  along the axes; and a walk that never goes straight back to the cell before the last.
\<close>

definition unit_dirs :: "pos set" where
  "unit_dirs = {(1, 0), (-1, 0), (0, 1), (0, -1)}"

definition diag_dirs :: "pos set" where
  "diag_dirs = {(1, 1), (1, -1), (-1, 1), (-1, -1)}"

definition diff :: "pos \<Rightarrow> pos \<Rightarrow> pos" where
  "diff q p = (fst q - fst p, snd q - snd p)"

fun unit_walk :: "pos list \<Rightarrow> bool" where
  "unit_walk (p # q # rest) = (diff q p \<in> unit_dirs \<and> unit_walk (q # rest))"
| "unit_walk _ = True"

fun no_backtrack :: "'a list \<Rightarrow> bool" where
  "no_backtrack (p # q # r # rest) = (p \<noteq> r \<and> no_backtrack (q # r # rest))"
| "no_backtrack _ = True"

text \<open>
  A further invariant of the \<^verbatim>\<open>while\<close> loop of \<^verbatim>\<open>findPath\<close>: no two node objects are
  for the same cell, and every node object is in the open list or its cell is closed.
\<close>

definition store_inv :: "search \<Rightarrow> bool" where
  "store_inv s \<longleftrightarrow>
     distinct (map node_key (nodes s)) \<and>
     (\<forall>r<length (nodes s). r \<in> set (openList s) \<or> node_key (nodes s ! r) \<in> closedSet s)"

text \<open>
  For the bucket search: every link of a node reachable from the start is a step along an
  axis; the index \<^verbatim>\<open>get_cost(i.x, i.y, end_x, end_y) + i.cost - base_cost\<close> of a node;
  the invariant that every node sits in the bucket of its index; what a run that does not
  raise leaves (the last state of the loop with its invariants, and \<^verbatim>\<open>null\<close> for an end
  out of reach or the chain of \<^verbatim>\<open>prev\<close> links from the end); and a walk of nodes, each a
  link of the next.
\<close>

definition unit_links :: "MapNode list \<Rightarrow> nat \<Rightarrow> bool" where
  "unit_links st start \<longleftrightarrow>
     (\<forall>i<length st. link_reach st start i \<longrightarrow>
        (\<forall>j\<in>set (mn_nodes (st ! i)).
           \<bar>mn_x (st ! j) - mn_x (st ! i)\<bar> + \<bar>mn_y (st ! j) - mn_y (st ! i)\<bar> = 1))"

definition bucket_index :: "int \<Rightarrow> int \<Rightarrow> buckets \<Rightarrow> nat \<Rightarrow> int" where
  "bucket_index end_x end_y s n =
     get_cost (mn_x (store s ! n)) (mn_y (store s ! n)) end_x end_y + mn_cost (store s ! n) - base_cost s"

definition inv_f :: "int \<Rightarrow> int \<Rightarrow> buckets \<Rightarrow> bool" where
  "inv_f end_x end_y s \<longleftrightarrow> (\<forall>k<4. \<forall>n\<in>set (opens s ! k). bucket_index end_x end_y s n = int k)"

definition bucket_run :: "int \<Rightarrow> nat \<Rightarrow> nat \<Rightarrow> MapNode list \<Rightarrow> nat list option \<Rightarrow> MapNode list \<Rightarrow> bool" where
  "bucket_run tok start e st0 res st' \<longleftrightarrow>
     (\<exists>sf. st' = store sf \<and> inv_shape tok start st0 sf \<and> inv_marked tok start st0 sf \<and>
        ((res = None \<and> \<not> link_reach st0 start e) \<or>
         (\<exists>rest. res = Some (e # rest) \<and> back_chain (store sf) start (e # rest) \<and>
                 link_reach st0 start e \<and> mn_token (store sf ! e) = tok)))"

fun link_walk :: "MapNode list \<Rightarrow> nat list \<Rightarrow> bool" where
  "link_walk st (a # b # rest) = (a \<in> set (mn_nodes (st ! b)) \<and> link_walk st (b # rest))"
| "link_walk st _ = True"

section \<open>Properties of the pathfinder\<close>

subsection \<open>Auxiliary facts\<close>

lemma getNeighbors_fresh: "getNeighbors a n = getNeighbors a (fresh_node (node_x n) (node_y n))"
  by (simp add: getNeighbors_def fresh_node_def)

lemma neighbor_keys_node: "map node_key (getNeighbors a n) = neighbor_keys a (node_key n)"
  unfolding neighbor_keys_def node_key_def
  by (simp add: getNeighbors_fresh [of a n] fresh_node_def)

lemma getNeighbors_member:
  assumes "nb \<in> set (getNeighbors a n)"
  shows "nb = fresh_node (node_x nb) (node_y nb)"
    and "isValidPosition a (node_x nb) (node_y nb)"
    and "node_key nb \<in> set (neighbor_keys a (node_key n))"
proof -
  from assms obtain dir where
    nb: "nb = fresh_node (node_x n + fst dir) (node_y n + snd dir)"
    and v: "isValidPosition a (node_x n + fst dir) (node_y n + snd dir)"
    by (auto simp: getNeighbors_def Let_def split: if_splits)
  show "nb = fresh_node (node_x nb) (node_y nb)" by (simp add: nb fresh_node_def)
  show "isValidPosition a (node_x nb) (node_y nb)" using v by (simp add: nb fresh_node_def)
  have "node_key nb \<in> set (map node_key (getNeighbors a n))" using assms by simp
  then show "node_key nb \<in> set (neighbor_keys a (node_key n))" by (simp only: neighbor_keys_node)
qed

lemma scan_min_member: "scan_min st m rs \<in> set (m # rs)"
  by (induction rs arbitrary: m) auto

lemma getMinFNode_member: "getMinFNode st l = Some r \<Longrightarrow> r \<in> set l"
  using scan_min_member by (fastforce simp: getMinFNode_def split: list.splits)

lemma getMinFNode_None: "getMinFNode st l = None \<longleftrightarrow> l = []"
  by (simp add: getMinFNode_def split: list.splits)

lemma removeFromOpenList_remove1:
  "distinct (map (\<lambda>r. node_key (st ! r)) l) \<Longrightarrow> n \<in> set l \<Longrightarrow> removeFromOpenList st l n = remove1 n l"
proof (induction l)
  case Nil
  then show ?case by simp
next
  case (Cons r rs)
  show ?case
  proof (cases "r = n")
    case True
    then show ?thesis by simp
  next
    case False
    with Cons.prems have n: "n \<in> set rs" by simp
    with Cons.prems have "node_key (st ! r) \<noteq> node_key (st ! n)" by auto
    then have "\<not> (node_x (st ! r) = node_x (st ! n) \<and> node_y (st ! r) = node_y (st ! n))"
      by (simp add: node_key_def)
    with Cons.IH [OF _ n] Cons.prems False show ?thesis by auto
  qed
qed

lemma visitNeighbor_cases:
  obtains (closed) "node_key nb \<in> closedSet s" "visitNeighbor e cur s nb = s"
  | (new) "node_key nb \<notin> closedSet s" "openSet s (node_key nb) = None"
      "visitNeighbor e cur s nb =
         s\<lparr>nodes := nodes s @ [nb\<lparr>node_g := node_g (nodes s ! cur) + 1,
                 node_h := calculateHeuristic e (node_x nb) (node_y nb),
                 node_f := of_int (node_g (nodes s ! cur) + 1) + calculateHeuristic e (node_x nb) (node_y nb),
                 node_parent := Some cur\<rparr>],
           openList := openList s @ [length (nodes s)],
           openSet := (openSet s)(node_key nb \<mapsto> length (nodes s))\<rparr>"
  | (improve) ex where "node_key nb \<notin> closedSet s" "openSet s (node_key nb) = Some ex"
      "node_g (nodes s ! cur) + 1 < node_g (nodes s ! ex)"
      "visitNeighbor e cur s nb =
         s\<lparr>nodes := (nodes s)[ex := (nodes s ! ex)\<lparr>node_g := node_g (nodes s ! cur) + 1,
                 node_f := of_int (node_g (nodes s ! cur) + 1) + node_h (nodes s ! ex),
                 node_parent := Some cur\<rparr>]\<rparr>"
  | (keep) ex where "node_key nb \<notin> closedSet s" "openSet s (node_key nb) = Some ex"
      "\<not> node_g (nodes s ! cur) + 1 < node_g (nodes s ! ex)"
      "visitNeighbor e cur s nb = s"
proof (cases "node_key nb \<in> closedSet s")
  case True
  then show ?thesis using closed by (simp add: visitNeighbor_def node_key_def)
next
  case nc: False
  show ?thesis
  proof (cases "openSet s (node_key nb)")
    case None
    with nc show ?thesis using new by (simp add: visitNeighbor_def node_key_def Let_def)
  next
    case (Some ex)
    with nc show ?thesis using improve [of ex] keep [of ex]
      by (cases "node_g (nodes s ! cur) + 1 < node_g (nodes s ! ex)")
         (simp_all add: visitNeighbor_def node_key_def Let_def)
  qed
qed

lemma search_inv_new:
  assumes inv: "search_inv a start s"
    and cur: "cur < length (nodes s)" "cur \<notin> set (openList s)"
    and k: "node_key n \<notin> closedSet s" "openSet s (node_key n) = None"
    and n: "isValidPosition a (node_x n) (node_y n)"
           "node_g n = node_g (nodes s ! cur) + 1" "node_parent n = Some cur"
           "node_key n \<in> set (neighbor_keys a (node_key (nodes s ! cur)))"
  shows "search_inv a start
           (s\<lparr>nodes := nodes s @ [n], openList := openList s @ [length (nodes s)],
              openSet := (openSet s)(node_key n \<mapsto> length (nodes s))\<rparr>)"
    (is "search_inv a start ?s'")
proof -
  let ?L = "length (nodes s)"
  from inv have op: "\<And>r. r \<in> set (openList s) \<Longrightarrow> r < ?L \<and> node_key (nodes s ! r) \<notin> closedSet s"
    and dist: "distinct (open_keys s)"
    and os: "\<And>k r. openSet s k = Some r \<longleftrightarrow> r \<in> set (openList s) \<and> node_key (nodes s ! r) = k"
    and wf: "\<And>r. r < ?L \<Longrightarrow> wf_node a start s r"
    and fin: "finite (closedSet s)"
    and cl: "\<And>k. k \<in> closedSet s \<Longrightarrow> isValidCoordinate a (fst k) (snd k)"
    unfolding search_inv_def by blast+
  have old: "\<And>r. r < ?L \<Longrightarrow> nodes ?s' ! r = nodes s ! r" by (simp add: nth_append)
  have new: "nodes ?s' ! ?L = n" by simp
  have notin: "node_key n \<notin> set (open_keys s)"
  proof
    assume "node_key n \<in> set (open_keys s)"
    then obtain r where "r \<in> set (openList s)" "node_key (nodes s ! r) = node_key n"
      by (auto simp: open_keys_def)
    then have "openSet s (node_key n) = Some r" using os by blast
    with k show False by simp
  qed
  have keys: "open_keys ?s' = open_keys s @ [node_key n]"
    using op by (simp add: open_keys_def nth_append)
  have 1: "\<forall>r\<in>set (openList ?s'). r < length (nodes ?s') \<and> node_key (nodes ?s' ! r) \<notin> closedSet ?s'"
  proof
    fix r assume "r \<in> set (openList ?s')"
    then consider "r \<in> set (openList s)" | "r = ?L" by auto
    then show "r < length (nodes ?s') \<and> node_key (nodes ?s' ! r) \<notin> closedSet ?s'"
    proof cases
      case 1
      with op [OF 1] show ?thesis by (simp add: nth_append)
    next
      case 2
      with k show ?thesis by simp
    qed
  qed
  have 2: "distinct (open_keys ?s')" using dist notin by (simp add: keys)
  have 3: "\<forall>k r. openSet ?s' k = Some r \<longleftrightarrow> r \<in> set (openList ?s') \<and> node_key (nodes ?s' ! r) = k"
  proof (intro allI)
    fix k' r
    show "openSet ?s' k' = Some r \<longleftrightarrow> r \<in> set (openList ?s') \<and> node_key (nodes ?s' ! r) = k'"
    proof (cases "r < ?L")
      case True
      have "node_key (nodes s ! r) = node_key n \<Longrightarrow> r \<notin> set (openList s)"
        using notin unfolding open_keys_def by (metis image_eqI set_map)
      with True show ?thesis using os [of k' r] by (auto simp: nth_append)
    next
      case False
      then have "r \<notin> set (openList s)" using op by auto
      with False show ?thesis using os [of k' r] by (auto simp: nth_append)
    qed
  qed
  have 4: "\<forall>r<length (nodes ?s'). wf_node a start ?s' r"
  proof (intro allI impI)
    fix r assume "r < length (nodes ?s')"
    then consider "r < ?L" | "r = ?L" by fastforce
    then show "wf_node a start ?s' r"
    proof cases
      case 1
      from wf [OF 1] show ?thesis
        unfolding wf_node_def using 1
        by (auto simp: nth_append split: option.splits)
    next
      case 2
      from wf [OF cur(1)] have "0 \<le> node_g (nodes s ! cur)" by (simp add: wf_node_def)
      with 2 n cur show ?thesis
        unfolding wf_node_def by (auto simp: nth_append)
    qed
  qed
  show ?thesis
    unfolding search_inv_def using 1 2 3 4 fin cl by simp
qed

lemma search_inv_improve:
  assumes inv: "search_inv a start s"
    and cur: "cur < length (nodes s)" "cur \<notin> set (openList s)"
    and ex: "openSet s k = Some ex"
    and nb: "k \<in> set (neighbor_keys a (node_key (nodes s ! cur)))"
  shows "search_inv a start
           (s\<lparr>nodes := (nodes s)[ex := (nodes s ! ex)\<lparr>node_g := node_g (nodes s ! cur) + 1,
                   node_f := fv, node_parent := Some cur\<rparr>]\<rparr>)"
    (is "search_inv a start ?s'")
proof -
  let ?L = "length (nodes s)"
  from inv have op: "\<And>r. r \<in> set (openList s) \<Longrightarrow> r < ?L \<and> node_key (nodes s ! r) \<notin> closedSet s"
    and dist: "distinct (open_keys s)"
    and os: "\<And>k r. openSet s k = Some r \<longleftrightarrow> r \<in> set (openList s) \<and> node_key (nodes s ! r) = k"
    and wf: "\<And>r. r < ?L \<Longrightarrow> wf_node a start s r"
    and fin: "finite (closedSet s)"
    and cl: "\<And>k. k \<in> closedSet s \<Longrightarrow> isValidCoordinate a (fst k) (snd k)"
    unfolding search_inv_def by blast+
  from ex os have exo: "ex \<in> set (openList s)" and exk: "node_key (nodes s ! ex) = k" by blast+
  from exo op have exL: "ex < ?L" by blast
  from exo cur have ne: "ex \<noteq> cur" by blast
  have len: "length (nodes ?s') = ?L" by simp
  have key: "\<And>r. r < ?L \<Longrightarrow> node_key (nodes ?s' ! r) = node_key (nodes s ! r)"
    using exL by (simp add: nth_list_update node_key_def)
  have other: "\<And>r. r \<noteq> ex \<Longrightarrow> nodes ?s' ! r = nodes s ! r" by simp
  have keys: "open_keys ?s' = open_keys s"
    unfolding open_keys_def using op key by simp
  have 1: "\<forall>r\<in>set (openList ?s'). r < length (nodes ?s') \<and> node_key (nodes ?s' ! r) \<notin> closedSet ?s'"
    using op key by simp
  have 2: "distinct (open_keys ?s')" using dist by (simp only: keys)
  have 3: "\<forall>k r. openSet ?s' k = Some r \<longleftrightarrow> r \<in> set (openList ?s') \<and> node_key (nodes ?s' ! r) = k"
  proof (intro allI)
    fix k' r
    show "openSet ?s' k' = Some r \<longleftrightarrow> r \<in> set (openList ?s') \<and> node_key (nodes ?s' ! r) = k'"
      using os [of k' r] op [of r] key [of r] by auto
  qed
  have 4: "\<forall>r<length (nodes ?s'). wf_node a start ?s' r"
  proof (intro allI impI)
    fix r assume "r < length (nodes ?s')"
    then have rL: "r < ?L" by simp
    show "wf_node a start ?s' r"
    proof (cases "r = ex")
      case True
      from wf [OF cur(1)] have g0: "0 \<le> node_g (nodes s ! cur)" by (simp add: wf_node_def)
      from wf [OF exL] have v: "isValidPosition a (node_x (nodes s ! ex)) (node_y (nodes s ! ex))"
        by (simp add: wf_node_def)
      have nk: "node_key (nodes ?s' ! ex) = k" using key [OF exL] exk by simp
      have nd: "nodes ?s' ! ex = (nodes s ! ex)\<lparr>node_g := node_g (nodes s ! cur) + 1,
                   node_f := fv, node_parent := Some cur\<rparr>" using exL by simp
      have nc: "nodes ?s' ! cur = nodes s ! cur" using ne other by metis
      show ?thesis
        unfolding wf_node_def True nk unfolding nd nc
        using g0 v cur nb ne by simp
    next
      case False
      have nr: "nodes ?s' ! r = nodes s ! r" using False other by metis
      show ?thesis
      proof (cases "node_parent (nodes s ! r)")
        case None
        with wf [OF rL] show ?thesis
          unfolding wf_node_def nr by simp
      next
        case (Some p)
        with wf [OF rL] have "p \<notin> set (openList s)" by (simp add: wf_node_def)
        with exo have "p \<noteq> ex" by blast
        then have np: "nodes ?s' ! p = nodes s ! p" using other by metis
        from wf [OF rL] show ?thesis
          unfolding wf_node_def nr unfolding Some option.case np by simp
      qed
    qed
  qed
  show ?thesis
    unfolding search_inv_def using 1 2 3 4 fin cl by simp
qed

lemma node_key_update [simp]:
  "node_key (n\<lparr>node_g := gv\<rparr>) = node_key n"
  "node_key (n\<lparr>node_h := hv\<rparr>) = node_key n"
  "node_key (n\<lparr>node_f := fv\<rparr>) = node_key n"
  "node_key (n\<lparr>node_parent := pv\<rparr>) = node_key n"
  by (simp_all add: node_key_def)

lemma visitNeighbor_inv:
  assumes inv: "search_inv a start s"
    and cur: "cur < length (nodes s)" "cur \<notin> set (openList s)"
    and nb: "isValidPosition a (node_x nb) (node_y nb)"
            "node_key nb \<in> set (neighbor_keys a (node_key (nodes s ! cur)))"
  shows "search_inv a start (visitNeighbor e cur s nb)"
    and "visit_rel cur s (visitNeighbor e cur s nb)"
    and "node_key nb \<in> closedSet (visitNeighbor e cur s nb) \<union> dom (openSet (visitNeighbor e cur s nb))"
proof -
  have "search_inv a start (visitNeighbor e cur s nb) \<and> visit_rel cur s (visitNeighbor e cur s nb) \<and>
        node_key nb \<in> closedSet (visitNeighbor e cur s nb) \<union> dom (openSet (visitNeighbor e cur s nb))"
  proof (cases rule: visitNeighbor_cases [of nb s e cur])
    case closed
    with inv cur show ?thesis by (simp add: visit_rel_def)
  next
    case new
    let ?n = "nb\<lparr>node_g := node_g (nodes s ! cur) + 1,
                 node_h := calculateHeuristic e (node_x nb) (node_y nb),
                 node_f := of_int (node_g (nodes s ! cur) + 1) + calculateHeuristic e (node_x nb) (node_y nb),
                 node_parent := Some cur\<rparr>"
    have kn: "node_key ?n = node_key nb" by simp
    have "search_inv a start
           (s\<lparr>nodes := nodes s @ [?n], openList := openList s @ [length (nodes s)],
              openSet := (openSet s)(node_key ?n \<mapsto> length (nodes s))\<rparr>)"
      by (rule search_inv_new [OF inv cur]) (use new nb in \<open>simp_all\<close>)
    then have 1: "search_inv a start (visitNeighbor e cur s nb)"
      unfolding new(3) by simp
    have 2: "visit_rel cur s (visitNeighbor e cur s nb)"
      unfolding new(3) visit_rel_def using cur
      by (auto simp: nth_append)
    have 3: "node_key nb \<in> closedSet (visitNeighbor e cur s nb) \<union> dom (openSet (visitNeighbor e cur s nb))"
      unfolding new(3) by simp
    from 1 2 3 show ?thesis by blast
  next
    case (improve ex)
    from inv improve(2) have exo: "ex \<in> set (openList s)"
      unfolding search_inv_def by blast
    with cur have ne: "ex \<noteq> cur" by blast
    have 1: "search_inv a start (visitNeighbor e cur s nb)"
      unfolding improve(4) by (rule search_inv_improve [OF inv cur improve(2) nb(2)])
    have 2: "visit_rel cur s (visitNeighbor e cur s nb)"
      unfolding improve(4) visit_rel_def using cur ne by simp
    have 3: "node_key nb \<in> closedSet (visitNeighbor e cur s nb) \<union> dom (openSet (visitNeighbor e cur s nb))"
      unfolding improve(4) using improve(2) by auto
    from 1 2 3 show ?thesis by blast
  next
    case (keep ex)
    with inv cur show ?thesis by (auto simp: visit_rel_def)
  qed
  then show "search_inv a start (visitNeighbor e cur s nb)"
    and "visit_rel cur s (visitNeighbor e cur s nb)"
    and "node_key nb \<in> closedSet (visitNeighbor e cur s nb) \<union> dom (openSet (visitNeighbor e cur s nb))"
    by blast+
qed

lemma visit_rel_trans: "visit_rel cur s s' \<Longrightarrow> visit_rel cur s' s'' \<Longrightarrow> visit_rel cur s s''"
  unfolding visit_rel_def by (metis order_trans)

lemma fold_visit_inv:
  assumes "search_inv a start s"
    and "cur < length (nodes s)" "cur \<notin> set (openList s)"
    and "\<forall>nb\<in>set nbs. isValidPosition a (node_x nb) (node_y nb) \<and>
           node_key nb \<in> set (neighbor_keys a (node_key (nodes s ! cur)))"
  shows "search_inv a start (foldl (visitNeighbor e cur) s nbs) \<and>
         visit_rel cur s (foldl (visitNeighbor e cur) s nbs) \<and>
         (\<forall>nb\<in>set nbs. node_key nb \<in> closedSet (foldl (visitNeighbor e cur) s nbs)
                                   \<union> dom (openSet (foldl (visitNeighbor e cur) s nbs)))"
  using assms
proof (induction nbs arbitrary: s)
  case Nil
  then show ?case by (simp add: visit_rel_def)
next
  case (Cons nb nbs)
  let ?s1 = "visitNeighbor e cur s nb"
  from Cons.prems have nb: "isValidPosition a (node_x nb) (node_y nb)"
    "node_key nb \<in> set (neighbor_keys a (node_key (nodes s ! cur)))" by simp_all
  note v = visitNeighbor_inv [OF Cons.prems(1-3) nb, of e]
  from v(2) have c1: "cur < length (nodes ?s1)" "cur \<notin> set (openList ?s1)"
    and same: "nodes ?s1 ! cur = nodes s ! cur" by (simp_all add: visit_rel_def)
  have rest: "\<forall>nb\<in>set nbs. isValidPosition a (node_x nb) (node_y nb) \<and>
           node_key nb \<in> set (neighbor_keys a (node_key (nodes ?s1 ! cur)))"
    using Cons.prems(4) by (simp add: same)
  note ih = Cons.IH [OF v(1) c1 rest]
  let ?s2 = "foldl (visitNeighbor e cur) ?s1 nbs"
  from ih have r2: "visit_rel cur ?s1 ?s2" by blast
  have "node_key nb \<in> closedSet ?s2 \<union> dom (openSet ?s2)"
    using v(3) r2 unfolding visit_rel_def by auto
  with ih visit_rel_trans [OF v(2) r2] show ?case by simp
qed

lemma search_inv_close:
  assumes inv: "search_inv a start s" and cur: "cur \<in> set (openList s)"
  shows "search_inv a start
           (s\<lparr>openList := remove1 cur (openList s),
              openSet := (openSet s)(node_key (nodes s ! cur) := None),
              closedSet := insert (node_key (nodes s ! cur)) (closedSet s)\<rparr>)"
    (is "search_inv a start ?s'")
proof -
  let ?L = "length (nodes s)"
  let ?ck = "node_key (nodes s ! cur)"
  from inv have op: "\<And>r. r \<in> set (openList s) \<Longrightarrow> r < ?L \<and> node_key (nodes s ! r) \<notin> closedSet s"
    and dist: "distinct (open_keys s)"
    and os: "\<And>k r. openSet s k = Some r \<longleftrightarrow> r \<in> set (openList s) \<and> node_key (nodes s ! r) = k"
    and wf: "\<And>r. r < ?L \<Longrightarrow> wf_node a start s r"
    and fin: "finite (closedSet s)"
    and cl: "\<And>k. k \<in> closedSet s \<Longrightarrow> isValidCoordinate a (fst k) (snd k)"
    unfolding search_inv_def by blast+
  from dist have d: "distinct (openList s)" and inj: "inj_on (\<lambda>r. node_key (nodes s ! r)) (set (openList s))"
    by (simp_all add: open_keys_def distinct_map)
  have mem: "\<And>r. r \<in> set (remove1 cur (openList s)) \<longleftrightarrow> r \<in> set (openList s) \<and> r \<noteq> cur"
    using d by auto
  have other: "\<And>r. r \<in> set (openList s) \<Longrightarrow> r \<noteq> cur \<Longrightarrow> node_key (nodes s ! r) \<noteq> ?ck"
    using inj cur by (auto dest: inj_onD)
  have 1: "\<forall>r\<in>set (openList ?s'). r < length (nodes ?s') \<and> node_key (nodes ?s' ! r) \<notin> closedSet ?s'"
    using op other by (simp add: mem)
  have "distinct (map (\<lambda>r. node_key (nodes s ! r)) (remove1 cur (openList s)))"
    using d inj by (auto simp: distinct_map intro: inj_on_subset)
  then have 2: "distinct (open_keys ?s')" by (simp add: open_keys_def)
  have 3: "\<forall>k r. openSet ?s' k = Some r \<longleftrightarrow> r \<in> set (openList ?s') \<and> node_key (nodes ?s' ! r) = k"
  proof (intro allI)
    fix k r
    show "openSet ?s' k = Some r \<longleftrightarrow> r \<in> set (openList ?s') \<and> node_key (nodes ?s' ! r) = k"
      using os [of k r] other [of r] by (auto simp: mem)
  qed
  have 4: "\<forall>r<length (nodes ?s'). wf_node a start ?s' r"
  proof (intro allI impI)
    fix r assume "r < length (nodes ?s')"
    then have "wf_node a start s r" using wf by simp
    then show "wf_node a start ?s' r"
      unfolding wf_node_def by (auto simp: mem split: option.splits)
  qed
  from op [OF cur] wf have "isValidPosition a (node_x (nodes s ! cur)) (node_y (nodes s ! cur))"
    by (simp add: wf_node_def)
  then have 5: "isValidCoordinate a (fst ?ck) (snd ?ck)"
    by (simp add: isValidPosition_def node_key_def)
  show ?thesis
    unfolding search_inv_def using 1 2 3 4 5 fin cl by simp
qed

lemma expand_inv:
  assumes inv: "search_inv a start s" and cur: "cur \<in> set (openList s)"
  shows "search_inv a start (expand a e cur s)"
    and "closedSet (expand a e cur s) = insert (node_key (nodes s ! cur)) (closedSet s)"
    and "node_key (nodes s ! cur) \<notin> closedSet s"
    and "dom (openSet s) - {node_key (nodes s ! cur)} \<subseteq> dom (openSet (expand a e cur s))"
    and "\<forall>k\<in>set (neighbor_keys a (node_key (nodes s ! cur))).
            k \<in> closedSet (expand a e cur s) \<union> dom (openSet (expand a e cur s))"
proof -
  let ?ck = "node_key (nodes s ! cur)"
  let ?s1 = "s\<lparr>openList := remove1 cur (openList s),
              openSet := (openSet s)(?ck := None),
              closedSet := insert ?ck (closedSet s)\<rparr>"
  let ?nbs = "getNeighbors a (nodes s ! cur)"
  from inv have dist: "distinct (open_keys s)"
    and op: "\<And>r. r \<in> set (openList s) \<Longrightarrow> r < length (nodes s) \<and> node_key (nodes s ! r) \<notin> closedSet s"
    unfolding search_inv_def by blast+
  have rm: "removeFromOpenList (nodes s) (openList s) cur = remove1 cur (openList s)"
    using dist cur by (intro removeFromOpenList_remove1) (simp_all add: open_keys_def)
  have ex: "expand a e cur s = foldl (visitNeighbor e cur) ?s1 ?nbs"
    by (simp add: expand_def Let_def rm node_key_def)
  have inv1: "search_inv a start ?s1" by (rule search_inv_close [OF inv cur])
  from dist have "distinct (openList s)" by (simp add: open_keys_def distinct_map)
  then have c1: "cur < length (nodes ?s1)" "cur \<notin> set (openList ?s1)"
    using op [OF cur] by simp_all
  have nbs: "\<forall>nb\<in>set ?nbs. isValidPosition a (node_x nb) (node_y nb) \<and>
           node_key nb \<in> set (neighbor_keys a (node_key (nodes ?s1 ! cur)))"
    using getNeighbors_member(2,3) by simp
  note f = fold_visit_inv [OF inv1 c1 nbs, of e, folded ex]
  from f show "search_inv a start (expand a e cur s)" by blast
  from f have vr: "visit_rel cur ?s1 (expand a e cur s)" by blast
  then show "closedSet (expand a e cur s) = insert ?ck (closedSet s)"
    by (simp add: visit_rel_def)
  show "?ck \<notin> closedSet s" using op [OF cur] by simp
  show "dom (openSet s) - {?ck} \<subseteq> dom (openSet (expand a e cur s))"
    using vr by (auto simp: visit_rel_def)
  from f have "\<forall>nb\<in>set ?nbs. node_key nb \<in> closedSet (expand a e cur s) \<union> dom (openSet (expand a e cur s))"
    by blast
  then have "\<forall>k\<in>set (map node_key ?nbs). k \<in> closedSet (expand a e cur s) \<union> dom (openSet (expand a e cur s))"
    by simp
  then show "\<forall>k\<in>set (neighbor_keys a ?ck).
            k \<in> closedSet (expand a e cur s) \<union> dom (openSet (expand a e cur s))"
    by (simp only: neighbor_keys_node)
qed

lemma cells_eq: "cells a = {0..<mapSize a} \<times> {0..<mapSize a}"
  by (auto simp: cells_def isValidCoordinate_def)

lemma finite_cells: "finite (cells a)"
  by (simp add: cells_eq)

lemma card_cells: "card (cells a) = nat (mapSize a) * nat (mapSize a)"
  by (simp add: cells_eq card_cartesian_product)

lemma search_inv_initial:
  assumes "valid_input a start e"
  shows "search_inv a start (initial_search start e)"
    and "frontier_inv a start e (initial_search start e)"
    and "closedSet (initial_search start e) = {}"
  using assms
  by (auto simp: search_inv_def frontier_inv_def initial_search_def Let_def open_keys_def
      wf_node_def node_key_def valid_input_def isValidPosition_def)

lemma loop_body_cases:
  assumes inv: "search_inv a start s"
  obtains (empty) "openList s = []" "loop_body a e s = Inl (Inr None)"
  | (found) r where "r \<in> set (openList s)" "node_key (nodes s ! r) = e"
      "loop_body a e s = Inl (Inr (Some r))"
  | (step) cur where "cur \<in> set (openList s)" "node_key (nodes s ! cur) \<noteq> e"
      "loop_body a e s = Inr (expand a e cur s)"
proof (cases "openList s = []")
  case True
  then show ?thesis using empty by (simp add: loop_body_def)
next
  case False
  then obtain cur where g: "getMinFNode (nodes s) (openList s) = Some cur"
    using getMinFNode_None [of "nodes s" "openList s"] by auto
  then have m: "cur \<in> set (openList s)" by (rule getMinFNode_member)
  show ?thesis
  proof (cases "node_key (nodes s ! cur) = e")
    case True
    then have "loop_body a e s = Inl (Inr (Some cur))"
      using False g by (auto simp: loop_body_def node_key_def)
    with m True show ?thesis using found by blast
  next
    case ne: False
    then have "loop_body a e s = Inr (expand a e cur s)"
      using False g by (auto simp: loop_body_def node_key_def)
    with m ne show ?thesis using step by blast
  qed
qed

lemma loop_body_step:
  assumes inv: "search_inv a start s" and fr: "frontier_inv a start e s"
    and st: "loop_body a e s = Inr s'"
  shows "search_inv a start s'" and "frontier_inv a start e s'"
    and "card (closedSet s') = Suc (card (closedSet s))"
proof -
  from inv st obtain cur where cur: "cur \<in> set (openList s)" "node_key (nodes s ! cur) \<noteq> e"
    and s': "s' = expand a e cur s"
    by (cases rule: loop_body_cases [of a start s e]) auto
  have ex: "search_inv a start s'"
    "closedSet s' = insert (node_key (nodes s ! cur)) (closedSet s)"
    "node_key (nodes s ! cur) \<notin> closedSet s"
    "dom (openSet s) - {node_key (nodes s ! cur)} \<subseteq> dom (openSet s')"
    "\<forall>k\<in>set (neighbor_keys a (node_key (nodes s ! cur))). k \<in> closedSet s' \<union> dom (openSet s')"
    unfolding s' by (rule expand_inv [OF inv cur(1)])+
  show "search_inv a start s'" by (rule ex(1))
  from inv have "finite (closedSet s)" by (simp add: search_inv_def)
  then show "card (closedSet s') = Suc (card (closedSet s))"
    using ex(2,3) by simp
  let ?ck = "node_key (nodes s ! cur)"
  have d: "\<And>k. k \<in> dom (openSet s) \<Longrightarrow> k \<in> closedSet s' \<or> k \<in> dom (openSet s')"
    using ex(2,4) by auto
  have 1: "e \<notin> closedSet s'" using fr cur(2) ex(2) by (auto simp: frontier_inv_def)
  have 2: "start \<in> closedSet s' \<or> start \<in> dom (openSet s')"
    using fr d ex(2) unfolding frontier_inv_def by blast
  have 3: "\<forall>k\<in>closedSet s'. \<forall>k'\<in>set (neighbor_keys a k). k' \<in> closedSet s' \<or> k' \<in> dom (openSet s')"
  proof (intro ballI)
    fix k k' assume k: "k \<in> closedSet s'" and k': "k' \<in> set (neighbor_keys a k)"
    show "k' \<in> closedSet s' \<or> k' \<in> dom (openSet s')"
    proof (cases "k = ?ck")
      case True
      with ex(5) k' show ?thesis by blast
    next
      case False
      with k ex(2) have "k \<in> closedSet s" by simp
      with fr k' have "k' \<in> closedSet s \<or> k' \<in> dom (openSet s)"
        unfolding frontier_inv_def by blast
      with d ex(2) show ?thesis by blast
    qed
  qed
  from 1 2 3 show "frontier_inv a start e s'" unfolding frontier_inv_def by blast
qed

lemma hex_path_snoc:
  "ps \<noteq> [] \<Longrightarrow> hex_path a ps \<Longrightarrow> q \<in> set (neighbor_keys a (last ps)) \<Longrightarrow> hex_path a (ps @ [q])"
  by (induction a ps rule: hex_path.induct) auto

lemma buildPath_from_ok:
  assumes inv: "search_inv a start s"
  shows "r < length (nodes s) \<Longrightarrow>
     \<exists>p. buildPath_from (nodes s) (Some r) acc = Some (p @ acc) \<and> p \<noteq> [] \<and>
         node_key (hd p) = start \<and> last p = nodes s ! r \<and> hex_path a (map node_key p) \<and>
         (\<forall>n\<in>set p. isValidPosition a (node_x n) (node_y n)) \<and>
         int (length p) = node_g (nodes s ! r) + 1"
proof (induction "nat (node_g (nodes s ! r))" arbitrary: r acc rule: less_induct)
  case less
  let ?st = "nodes s"
  from inv less.prems have wf: "wf_node a start s r" by (simp add: search_inv_def)
  have unf: "buildPath_from ?st (Some r) acc = buildPath_from ?st (node_parent (?st ! r)) ((?st ! r) # acc)"
    by (subst buildPath_from.simps) simp
  show ?case
  proof (cases "node_parent (?st ! r)")
    case None
    then have "buildPath_from ?st (Some r) acc = Some ([?st ! r] @ acc)"
      unfolding unf by (subst buildPath_from.simps) simp
    moreover from wf None have "node_key (?st ! r) = start" "node_g (?st ! r) = 0"
      "isValidPosition a (node_x (?st ! r)) (node_y (?st ! r))"
      by (simp_all add: wf_node_def)
    ultimately show ?thesis by (intro exI [of _ "[?st ! r]"]) simp
  next
    case (Some q)
    with wf have q: "q < length ?st" and g: "node_g (?st ! r) = node_g (?st ! q) + 1"
      and adj: "node_key (?st ! r) \<in> set (neighbor_keys a (node_key (?st ! q)))"
      and v: "isValidPosition a (node_x (?st ! r)) (node_y (?st ! r))"
      by (simp_all add: wf_node_def)
    from inv q have "wf_node a start s q" by (simp add: search_inv_def)
    then have "0 \<le> node_g (?st ! q)" by (simp add: wf_node_def)
    with g have "nat (node_g (?st ! q)) < nat (node_g (?st ! r))" by simp
    from less.hyps [OF this q, of "(?st ! r) # acc"] obtain p where
      p: "buildPath_from ?st (Some q) ((?st ! r) # acc) = Some (p @ (?st ! r) # acc)"
        "p \<noteq> []" "node_key (hd p) = start" "last p = ?st ! q" "hex_path a (map node_key p)"
        "\<forall>n\<in>set p. isValidPosition a (node_x n) (node_y n)"
        "int (length p) = node_g (?st ! q) + 1"
      by blast
    have hp: "hex_path a (map node_key (p @ [?st ! r]))"
      using hex_path_snoc [of "map node_key p" a "node_key (?st ! r)"] p(2,4,5) adj
      by (simp add: last_map)
    show ?thesis
      by (intro exI [of _ "p @ [?st ! r]"]) (use p hp v g Some unf in simp)
  qed
qed

lemma buildPath_ok:
  assumes "search_inv a start s" "r < length (nodes s)"
  shows "\<exists>p. buildPath (nodes s) r = Some p \<and> p \<noteq> [] \<and>
         node_key (hd p) = start \<and> last p = nodes s ! r \<and> hex_path a (map node_key p) \<and>
         (\<forall>n\<in>set p. isValidPosition a (node_x n) (node_y n)) \<and>
         int (length p) = node_g (nodes s ! r) + 1"
  using buildPath_from_ok [OF assms, of "[]"] by (simp add: buildPath_def)

lemma expansions_inv:
  assumes "search_inv a start s" "frontier_inv a start e s" "expansions n a e s = Some s'"
  shows "search_inv a start s' \<and> frontier_inv a start e s' \<and>
         card (closedSet s') = card (closedSet s) + n"
  using assms
proof (induction n arbitrary: s)
  case 0
  then show ?case by simp
next
  case (Suc n)
  from Suc.prems(3) obtain s1 where s1: "loop_body a e s = Inr s1" "expansions n a e s1 = Some s'"
    by (auto split: sum.splits)
  note st = loop_body_step [OF Suc.prems(1,2) s1(1)]
  from Suc.IH [OF st(1,2) s1(2)] st(3) show ?case by simp
qed

lemma closed_card_le:
  assumes "search_inv a start s"
  shows "card (closedSet s) \<le> card (cells a)"
proof -
  from assms have "closedSet s \<subseteq> cells a" by (auto simp: search_inv_def cells_def)
  then show ?thesis by (intro card_mono finite_cells)
qed

lemma loop_reaches_exit:
  assumes "search_inv a start s" "frontier_inv a start e s"
  shows "\<exists>n sf r. expansions n a e s = Some sf \<and> loop_body a e sf = Inl r"
  using assms
proof (induction "card (cells a) - card (closedSet s)" arbitrary: s rule: less_induct)
  case less
  show ?case
  proof (cases "loop_body a e s")
    case (Inl r)
    then have "expansions 0 a e s = Some s \<and> loop_body a e s = Inl r" by simp
    then show ?thesis by blast
  next
    case (Inr s1)
    note st = loop_body_step [OF less.prems Inr]
    from closed_card_le [OF st(1)] st(3)
    have "card (cells a) - card (closedSet s1) < card (cells a) - card (closedSet s)" by simp
    from less.hyps [OF this st(1,2)] obtain n sf r where
      "expansions n a e s1 = Some sf" "loop_body a e sf = Inl r" by blast
    with Inr have "expansions (Suc n) a e s = Some sf \<and> loop_body a e sf = Inl r" by simp
    then show ?thesis by blast
  qed
qed

lemma main_loop_expansions:
  "expansions n a e s = Some sf \<Longrightarrow> main_loop a e s = main_loop a e sf"
proof (induction n arbitrary: s)
  case 0
  then show ?case by simp
next
  case (Suc n)
  then obtain s1 where s1: "loop_body a e s = Inr s1" "expansions n a e s1 = Some sf"
    by (auto split: sum.splits)
  have "main_loop a e s = main_loop a e s1"
    by (subst main_loop.simps) (simp add: s1(1))
  with Suc.IH [OF s1(2)] show ?case by simp
qed

lemma endPos_irrelevant [simp]:
  "isValidCoordinate (a\<lparr>endPos := ep\<rparr>) = isValidCoordinate a"
  "isValidPosition (a\<lparr>endPos := ep\<rparr>) = isValidPosition a"
  "getNeighbors (a\<lparr>endPos := ep\<rparr>) = getNeighbors a"
  "neighbor_keys (a\<lparr>endPos := ep\<rparr>) = neighbor_keys a"
  "valid_input (a\<lparr>endPos := ep\<rparr>) = valid_input a"
  by (simp_all add: fun_eq_iff isValidCoordinate_def isValidPosition_def getNeighbors_def
      neighbor_keys_def valid_input_def)

lemma hex_path_endPos [simp]: "hex_path (a\<lparr>endPos := ep\<rparr>) ps = hex_path a ps"
  by (induction a ps rule: hex_path.induct) simp_all

lemma findPath_valid_input:
  "valid_input a start e \<Longrightarrow>
   findPath a start e = (main_loop (a\<lparr>endPos := Some e\<rparr>) e (initial_search start e), a\<lparr>endPos := Some e\<rparr>)"
  by (simp add: findPath_def valid_input_def Let_def)

lemma findPath_invalid_input:
  "\<not> valid_input a start e \<Longrightarrow>
   \<exists>err. findPath a start e = (Some (Inl err), a) \<and>
     err \<in> {StartInvalid, EndInvalid, StartObstacle, EndObstacle}"
  by (auto simp: findPath_def valid_input_def Let_def)

lemma search_run:
  assumes v: "valid_input a start e"
  shows "\<exists>n sf. expansions n (a\<lparr>endPos := Some e\<rparr>) e (initial_search start e) = Some sf \<and>
           n \<le> nat (mapSize a) * nat (mapSize a) \<and> card (closedSet sf) = n \<and>
           search_inv (a\<lparr>endPos := Some e\<rparr>) start sf \<and>
           frontier_inv (a\<lparr>endPos := Some e\<rparr>) start e sf \<and>
           ((openList sf = [] \<and> loop_body (a\<lparr>endPos := Some e\<rparr>) e sf = Inl (Inr None) \<and>
             fst (findPath a start e) = Some (Inr None)) \<or>
            (\<exists>r p. r \<in> set (openList sf) \<and> node_key (nodes sf ! r) = e \<and>
                   loop_body (a\<lparr>endPos := Some e\<rparr>) e sf = Inl (Inr (Some r)) \<and>
                   buildPath (nodes sf) r = Some p \<and>
                   fst (findPath a start e) = Some (Inr (Some p))))"
proof -
  let ?a = "a\<lparr>endPos := Some e\<rparr>"
  let ?s0 = "initial_search start e"
  from v have v': "valid_input ?a start e" by simp
  note i0 = search_inv_initial [OF v']
  from loop_reaches_exit [OF i0(1,2)] obtain n sf r where
    run: "expansions n ?a e ?s0 = Some sf" and ex: "loop_body ?a e sf = Inl r" by blast
  from expansions_inv [OF i0(1,2) run] i0(3)
  have inv: "search_inv ?a start sf" and fr: "frontier_inv ?a start e sf"
    and card: "card (closedSet sf) = n" by simp_all
  from closed_card_le [OF inv] card have n: "n \<le> nat (mapSize a) * nat (mapSize a)"
    by (simp add: card_cells)
  have fp: "fst (findPath a start e) = main_loop ?a e sf"
    using main_loop_expansions [OF run] by (simp add: findPath_valid_input [OF v])
  from inv show ?thesis
  proof (cases rule: loop_body_cases [of ?a start sf e])
    case empty
    then have "main_loop ?a e sf = Some (Inr None)"
      by (subst main_loop.simps) simp
    with empty run n card inv fr fp show ?thesis by auto
  next
    case (found r)
    from inv found(1) have "r < length (nodes sf)" by (simp add: search_inv_def)
    from buildPath_ok [OF inv this] obtain p where p: "buildPath (nodes sf) r = Some p" by blast
    from found(3) p have "main_loop ?a e sf = Some (Inr (Some p))"
      by (subst main_loop.simps) simp
    with found p run n card inv fr fp show ?thesis by auto
  next
    case (step cur)
    with ex show ?thesis by simp
  qed
qed

lemma findPath_path_facts:
  assumes "fst (findPath a start e) = Some (Inr (Some p))"
  shows "p \<noteq> [] \<and> node_key (hd p) = start \<and> node_key (last p) = e \<and>
         hex_path a (map node_key p) \<and>
         (\<forall>n\<in>set p. isValidCoordinate a (node_x n) (node_y n) \<and> node_key n \<notin> obstacles a)"
proof -
  have v: "valid_input a start e"
  proof (rule ccontr)
    assume "\<not> valid_input a start e"
    from findPath_invalid_input [OF this] assms show False by auto
  qed
  from search_run [OF v] assms obtain n sf r where
    inv: "search_inv (a\<lparr>endPos := Some e\<rparr>) start sf"
    and r: "r \<in> set (openList sf)" "node_key (nodes sf ! r) = e"
    and p: "buildPath (nodes sf) r = Some p"
    by auto
  from inv r(1) have "r < length (nodes sf)" by (simp add: search_inv_def)
  from buildPath_ok [OF inv this] p r(2)
  show ?thesis by (auto simp: isValidPosition_def node_key_def)
qed

lemma concat_map_if: "concat (map (\<lambda>d. if P d then [f d] else []) ds) = map f (filter P ds)"
  by (induction ds) simp_all

lemma neighbor_keys_alt:
  "neighbor_keys a p =
     map (\<lambda>dir. (fst p + fst dir, snd p + snd dir))
       (filter (\<lambda>dir. isValidPosition a (fst p + fst dir) (snd p + snd dir))
          (if js_rem (snd p) 2 \<noteq> 0 then oddRowDirections else evenRowDirections))"
  unfolding neighbor_keys_def getNeighbors_def Let_def
  by (simp add: fresh_node_def concat_map_if node_key_def comp_def)

lemma neighbor_keys_iff:
  "q \<in> set (neighbor_keys a p) \<longleftrightarrow>
     isValidPosition a (fst q) (snd q) \<and>
     (fst q - fst p, snd q - snd p) \<in>
        set (if js_rem (snd p) 2 \<noteq> 0 then oddRowDirections else evenRowDirections)"
    (is "?l \<longleftrightarrow> ?v \<and> ?d \<in> set ?dirs")
proof
  assume ?l
  then obtain dir where dir: "dir \<in> set ?dirs" "isValidPosition a (fst p + fst dir) (snd p + snd dir)"
    "q = (fst p + fst dir, snd p + snd dir)"
    unfolding neighbor_keys_alt by auto
  from dir(3) have "?d = dir" by simp
  with dir show "?v \<and> ?d \<in> set ?dirs" by simp
next
  assume r: "?v \<and> ?d \<in> set ?dirs"
  have q: "q = (fst p + fst ?d, snd p + snd ?d)" by simp
  from r have "isValidPosition a (fst p + fst ?d) (snd p + snd ?d)" by simp
  with r have "?d \<in> set (filter (\<lambda>dir. isValidPosition a (fst p + fst dir) (snd p + snd dir)) ?dirs)"
    by simp
  then have "(fst p + fst ?d, snd p + snd ?d) \<in> set (neighbor_keys a p)"
    unfolding neighbor_keys_alt set_map by (rule imageI)
  with q show ?l by simp
qed

lemma straight_neighbors:
  assumes "isValidPosition a (fst q) (snd q)"
    and "(fst q - fst p, snd q - snd p) \<in> {(1, 0), (-1, 0), (0, 1), (0, -1)}"
  shows "q \<in> set (neighbor_keys a p)"
proof -
  from assms(2) have "(fst q - fst p, snd q - snd p) \<in> set oddRowDirections"
    "(fst q - fst p, snd q - snd p) \<in> set evenRowDirections"
    unfolding oddRowDirections_def evenRowDirections_def by fastforce+
  with assms(1) show ?thesis unfolding neighbor_keys_iff by simp
qed

lemma reachable_refl: "reachable a p p"
  by (simp add: reachable_def)

lemma reachable_step: "reachable a p q \<Longrightarrow> r \<in> set (neighbor_keys a q) \<Longrightarrow> reachable a p r"
  unfolding reachable_def by (rule rtranclp.rtrancl_into_rtrancl)

lemma reachable_trans: "reachable a p q \<Longrightarrow> reachable a q r \<Longrightarrow> reachable a p r"
  unfolding reachable_def by (rule rtranclp_trans)

lemma hex_path_reachable:
  "ps \<noteq> [] \<Longrightarrow> hex_path a ps \<Longrightarrow> reachable a (hd ps) (last ps)"
proof (induction a ps rule: hex_path.induct)
  case (3 a p q ps)
  then have "reachable a q (last (q # ps))" by simp
  moreover from 3 have "reachable a p q"
    using reachable_step [OF reachable_refl] by simp
  ultimately have "reachable a p (last (q # ps))" by (rule reachable_trans [rotated])
  then show ?case by simp
qed (simp_all add: reachable_refl)

lemma closed_contains_reachable:
  assumes fr: "frontier_inv a start e s" and emp: "dom (openSet s) = {}"
    and re: "reachable a start k"
  shows "k \<in> closedSet s"
  using re unfolding reachable_def
proof (induction rule: rtranclp_induct)
  case base
  from fr emp show ?case by (auto simp: frontier_inv_def)
next
  case (step y z)
  from fr step(3,2) have "z \<in> closedSet s \<or> z \<in> dom (openSet s)"
    unfolding frontier_inv_def by blast
  with emp show ?case by simp
qed

lemma findPath_null_iff:
  assumes v: "valid_input a start e"
  shows "fst (findPath a start e) = Some (Inr None) \<longleftrightarrow> \<not> reachable a start e"
proof
  assume n: "fst (findPath a start e) = Some (Inr None)"
  with search_run [OF v] obtain sf where
    inv: "search_inv (a\<lparr>endPos := Some e\<rparr>) start sf"
    and fr: "frontier_inv (a\<lparr>endPos := Some e\<rparr>) start e sf"
    and emp: "openList sf = []" by auto
  from inv emp have d: "dom (openSet sf) = {}" unfolding search_inv_def by auto
  show "\<not> reachable a start e"
  proof
    assume "reachable a start e"
    then have "reachable (a\<lparr>endPos := Some e\<rparr>) start e" by (simp add: reachable_def)
    from closed_contains_reachable [OF fr d this] fr show False by (simp add: frontier_inv_def)
  qed
next
  assume nr: "\<not> reachable a start e"
  from search_run [OF v] consider "fst (findPath a start e) = Some (Inr None)"
    | p where "fst (findPath a start e) = Some (Inr (Some p))" by auto
  then show "fst (findPath a start e) = Some (Inr None)"
  proof cases
    case 2
    from findPath_path_facts [OF 2] have "p \<noteq> []" "node_key (hd p) = start" "node_key (last p) = e"
      "hex_path a (map node_key p)" by simp_all
    with hex_path_reachable [of "map node_key p" a] have "reachable a start e"
      by (simp add: hd_map last_map)
    with nr show ?thesis by simp
  qed
qed

lemma free_step:
  assumes "obstacles a = {}" "isValidCoordinate a (fst q) (snd q)"
    and "(fst q - fst p, snd q - snd p) \<in> {(1, 0), (-1, 0), (0, 1), (0, -1)}"
  shows "reachable a p q"
proof -
  from assms(1,2) have "isValidPosition a (fst q) (snd q)" by (simp add: isValidPosition_def)
  from straight_neighbors [OF this assms(3)] show ?thesis
    by (rule reachable_step [OF reachable_refl])
qed

lemma reach_right:
  assumes "obstacles a = {}" "isValidCoordinate a px py"
  shows "isValidCoordinate a (px + int n) py \<Longrightarrow> reachable a (px, py) (px + int n, py)"
proof (induction n)
  case 0
  then show ?case by (simp add: reachable_refl)
next
  case (Suc n)
  from Suc.prems assms(2) have v: "isValidCoordinate a (px + int n) py"
    by (simp add: isValidCoordinate_def)
  have "reachable a (px + int n, py) (px + int (Suc n), py)"
    by (rule free_step [OF assms(1)]) (use Suc.prems in simp_all)
  with Suc.IH [OF v] show ?case by (rule reachable_trans)
qed

lemma reach_left:
  assumes "obstacles a = {}" "isValidCoordinate a px py"
  shows "isValidCoordinate a (px + int n) py \<Longrightarrow> reachable a (px + int n, py) (px, py)"
proof (induction n)
  case 0
  then show ?case by (simp add: reachable_refl)
next
  case (Suc n)
  from Suc.prems assms(2) have v: "isValidCoordinate a (px + int n) py"
    by (simp add: isValidCoordinate_def)
  have "reachable a (px + int (Suc n), py) (px + int n, py)"
    by (rule free_step [OF assms(1)]) (use v in simp_all)
  then show ?case using Suc.IH [OF v] by (rule reachable_trans)
qed

lemma reach_down:
  assumes "obstacles a = {}" "isValidCoordinate a px py"
  shows "isValidCoordinate a px (py + int n) \<Longrightarrow> reachable a (px, py) (px, py + int n)"
proof (induction n)
  case 0
  then show ?case by (simp add: reachable_refl)
next
  case (Suc n)
  from Suc.prems assms(2) have v: "isValidCoordinate a px (py + int n)"
    by (simp add: isValidCoordinate_def)
  have "reachable a (px, py + int n) (px, py + int (Suc n))"
    by (rule free_step [OF assms(1)]) (use Suc.prems in simp_all)
  with Suc.IH [OF v] show ?case by (rule reachable_trans)
qed

lemma reach_up:
  assumes "obstacles a = {}" "isValidCoordinate a px py"
  shows "isValidCoordinate a px (py + int n) \<Longrightarrow> reachable a (px, py + int n) (px, py)"
proof (induction n)
  case 0
  then show ?case by (simp add: reachable_refl)
next
  case (Suc n)
  from Suc.prems assms(2) have v: "isValidCoordinate a px (py + int n)"
    by (simp add: isValidCoordinate_def)
  have "reachable a (px, py + int (Suc n)) (px, py + int n)"
    by (rule free_step [OF assms(1)]) (use v in simp_all)
  then show ?case using Suc.IH [OF v] by (rule reachable_trans)
qed

lemma free_grid_connected:
  assumes free: "obstacles a = {}"
    and p: "isValidCoordinate a (fst p) (snd p)" and q: "isValidCoordinate a (fst q) (snd q)"
  shows "reachable a p q"
proof -
  obtain px py qx qy where pq: "p = (px, py)" "q = (qx, qy)" by (cases p, cases q) blast
  from p q have m: "isValidCoordinate a qx py"
    by (simp add: pq isValidCoordinate_def)
  have row: "reachable a (px, py) (qx, py)"
  proof (cases "px \<le> qx")
    case True
    then have "qx = px + int (nat (qx - px))" by simp
    with reach_right [OF free, of px py "nat (qx - px)"] p m show ?thesis by (simp add: pq)
  next
    case False
    then have "px = qx + int (nat (px - qx))" by simp
    with reach_left [OF free m, of "nat (px - qx)"] p show ?thesis by (simp add: pq)
  qed
  have col: "reachable a (qx, py) (qx, qy)"
  proof (cases "py \<le> qy")
    case True
    then have "qy = py + int (nat (qy - py))" by simp
    with reach_down [OF free m, of "nat (qy - py)"] q show ?thesis by (simp add: pq)
  next
    case False
    then have "py = qy + int (nat (py - qy))" by simp
    with reach_up [OF free, of qx qy "nat (py - qy)"] q m show ?thesis by (simp add: pq)
  qed
  from row col show ?thesis unfolding pq by (rule reachable_trans)
qed

lemma scan_min_first:
  "\<exists>i<length (m # rs). (m # rs) ! i = scan_min st m rs \<and>
      (\<forall>j<length (m # rs). node_f (st ! scan_min st m rs) \<le> node_f (st ! ((m # rs) ! j))) \<and>
      (\<forall>j<i. node_f (st ! scan_min st m rs) < node_f (st ! ((m # rs) ! j)))"
proof (induction rs arbitrary: m)
  case Nil
  then show ?case by simp
next
  case (Cons x xs)
  let ?m' = "if node_f (st ! x) < node_f (st ! m) then x else m"
  let ?r = "scan_min st ?m' xs"
  have r: "scan_min st m (x # xs) = ?r" by simp
  from Cons [of ?m'] obtain i where i: "i < length (?m' # xs)" "(?m' # xs) ! i = ?r"
    "\<forall>j<length (?m' # xs). node_f (st ! ?r) \<le> node_f (st ! ((?m' # xs) ! j))"
    "\<forall>j<i. node_f (st ! ?r) < node_f (st ! ((?m' # xs) ! j))" by blast
  from i(3) have le': "node_f (st ! ?r) \<le> node_f (st ! ?m')" by fastforce
  have lexs: "\<And>j. j < length xs \<Longrightarrow> node_f (st ! ?r) \<le> node_f (st ! (xs ! j))"
    using i(3) by fastforce
  have all: "\<forall>j<length (m # x # xs). node_f (st ! ?r) \<le> node_f (st ! ((m # x # xs) ! j))"
  proof (intro allI impI)
    fix j assume j: "j < length (m # x # xs)"
    consider "j = 0" | "j = 1" | k where "j = Suc (Suc k)" "k < length xs"
      using j by (cases j; cases "j - 1") auto
    then show "node_f (st ! ?r) \<le> node_f (st ! ((m # x # xs) ! j))"
    proof cases
      case 1 with le' show ?thesis by (auto split: if_splits)
    next
      case 2 with le' show ?thesis by (auto split: if_splits)
    next
      case 3 with lexs show ?thesis by simp
    qed
  qed
  show ?case
  proof (cases i)
    case 0
    with i(2) have rm: "?r = ?m'" by simp
    show ?thesis
    proof (cases "node_f (st ! x) < node_f (st ! m)")
      case True
      with rm have "?r = x" by simp
      with True all show ?thesis unfolding r
        by (intro exI [of _ 1]) auto
    next
      case False
      with rm have "?r = m" by simp
      with all show ?thesis unfolding r
        by (intro exI [of _ 0]) auto
    qed
  next
    case (Suc k)
    with i have k: "k < length xs" "xs ! k = ?r" by simp_all
    from i(4) Suc have lt': "node_f (st ! ?r) < node_f (st ! ?m')" by fastforce
    have ltj: "\<And>j. j < k \<Longrightarrow> node_f (st ! ?r) < node_f (st ! (xs ! j))"
      using i(4) Suc by fastforce
    have "\<forall>j<Suc (Suc k). node_f (st ! ?r) < node_f (st ! ((m # x # xs) ! j))"
    proof (intro allI impI)
      fix j assume j: "j < Suc (Suc k)"
      consider "j = 0" | "j = 1" | l where "j = Suc (Suc l)" "l < k"
        using j by (cases j; cases "j - 1") auto
      then show "node_f (st ! ?r) < node_f (st ! ((m # x # xs) ! j))"
      proof cases
        case 1 with lt' show ?thesis by (auto split: if_splits)
      next
        case 2 with lt' show ?thesis by (auto split: if_splits)
      next
        case 3 with ltj show ?thesis by simp
      qed
    qed
    with k all show ?thesis unfolding r
      by (intro exI [of _ "Suc (Suc k)"]) auto
  qed
qed

lemma removeFromOpenList_order:
  "\<exists>i. removeFromOpenList st l n = take i l @ drop (Suc i) l"
proof (induction l)
  case Nil
  then show ?case by simp
next
  case (Cons r rs)
  show ?case
  proof (cases "node_x (st ! r) = node_x (st ! n) \<and> node_y (st ! r) = node_y (st ! n)")
    case True
    then have "removeFromOpenList st (r # rs) n = take 0 (r # rs) @ drop (Suc 0) (r # rs)" by simp
    then show ?thesis by blast
  next
    case False
    from Cons obtain i where "removeFromOpenList st rs n = take i rs @ drop (Suc i) rs" by blast
    with False have "removeFromOpenList st (r # rs) n = take (Suc i) (r # rs) @ drop (Suc (Suc i)) (r # rs)"
      by auto
    then show ?thesis by blast
  qed
qed

subsection \<open>Auxiliary facts about the bucket search\<close>

lemma link_reach_refl: "link_reach st p p"
  by (simp add: link_reach_def)

lemma link_reach_step: "link_reach st p q \<Longrightarrow> r \<in> set (mn_nodes (st ! q)) \<Longrightarrow> link_reach st p r"
  unfolding link_reach_def by (rule rtranclp.rtrancl_into_rtrancl)

lemma bex_set_update:
  assumes "k < length xs"
  shows "(\<exists>b\<in>set (xs[k := xs ! k @ [i]]). j \<in> set b) \<longleftrightarrow> j = i \<or> (\<exists>b\<in>set xs. j \<in> set b)"
proof
  assume "\<exists>b\<in>set (xs[k := xs ! k @ [i]]). j \<in> set b"
  then obtain b where b: "b \<in> set (xs[k := xs ! k @ [i]])" "j \<in> set b" by blast
  from b(1) obtain m where m: "m < length xs" "b = (xs[k := xs ! k @ [i]]) ! m"
    unfolding in_set_conv_nth by auto
  show "j = i \<or> (\<exists>b\<in>set xs. j \<in> set b)"
  proof (cases "m = k")
    case True
    with m b(2) assms have "j = i \<or> j \<in> set (xs ! k)" by auto
    with assms show ?thesis using nth_mem by blast
  next
    case False
    with m b(2) have "j \<in> set (xs ! m)" by simp
    with m(1) show ?thesis using nth_mem by blast
  qed
next
  assume r: "j = i \<or> (\<exists>b\<in>set xs. j \<in> set b)"
  have kk: "(xs[k := xs ! k @ [i]]) ! k \<in> set (xs[k := xs ! k @ [i]])"
    using assms by (intro nth_mem) simp
  show "\<exists>b\<in>set (xs[k := xs ! k @ [i]]). j \<in> set b"
  proof (cases "j = i")
    case True
    with kk assms show ?thesis by (intro bexI [of _ "xs ! k @ [i]"]) simp_all
  next
    case False
    with r obtain b where b: "b \<in> set xs" "j \<in> set b" by blast
    from b(1) obtain m where m: "m < length xs" "b = xs ! m"
      unfolding in_set_conv_nth by auto
    have mm: "(xs[k := xs ! k @ [i]]) ! m \<in> set (xs[k := xs ! k @ [i]])"
      using m(1) by (intro nth_mem) simp
    have "j \<in> set ((xs[k := xs ! k @ [i]]) ! m)"
      using m b(2) assms by (cases "m = k") simp_all
    with mm show ?thesis by blast
  qed
qed

lemma in_bucket_mark:
  "k < length (opens s) \<Longrightarrow> in_bucket (mark tok cur i k s) j \<longleftrightarrow> j = i \<or> in_bucket s j"
  unfolding in_bucket_def by (simp add: mark_def bex_set_update)

lemma store_mark:
  "i < length (store s) \<Longrightarrow> j < length (store s) \<Longrightarrow>
   store (mark tok cur i k s) ! j =
     (if j = i then (store s ! i)\<lparr>mn_token := tok, mn_cost := mn_cost (store s ! cur) + 1,
                                  mn_prev := Some cur\<rparr> else store s ! j)"
  by (simp add: mark_def nth_list_update)

lemma mark_simps [simp]:
  "length (store (mark tok cur i k s)) = length (store s)"
  "length (opens (mark tok cur i k s)) = length (opens s)"
  "searched (mark tok cur i k s) = searched s"
  "base_cost (mark tok cur i k s) = base_cost s"
  by (simp_all add: mark_def)

lemma inv_shapeD:
  assumes "inv_shape tok start st0 s"
  shows "length (opens s) = 4" "length (store s) = length st0" "start < length st0"
    and "\<And>i. i < length st0 \<Longrightarrow> mn_nodes (store s ! i) = mn_nodes (st0 ! i)"
    and "\<And>i. i < length st0 \<Longrightarrow> mn_x (store s ! i) = mn_x (st0 ! i)"
    and "\<And>i. i < length st0 \<Longrightarrow> mn_y (store s ! i) = mn_y (st0 ! i)"
    and "\<And>i. i < length st0 \<Longrightarrow> mn_token (store s ! i) \<noteq> tok \<Longrightarrow> store s ! i = st0 ! i"
    and "\<And>n. in_bucket s n \<Longrightarrow> n < length st0"
    and "\<And>n. in_bucket s n \<Longrightarrow> mn_token (store s ! n) = tok"
    and "\<And>n. n \<in> set (searched s) \<Longrightarrow> n < length st0"
    and "\<And>n. n \<in> set (searched s) \<Longrightarrow> n \<noteq> start \<Longrightarrow> mn_token (store s ! n) = tok"
    and "start \<in> set (searched s)"
  using assms unfolding inv_shape_def by auto

lemma mark_shape:
  assumes sh: "inv_shape tok start st0 s" and g: "graph_ok st0"
    and cur: "cur \<in> set (searched s)"
    and i: "i \<in> set (mn_nodes (st0 ! cur))" "mn_token (store s ! i) \<noteq> tok"
    and k: "k < 4"
  shows "inv_shape tok start st0 (mark tok cur i k s)"
proof -
  note d = inv_shapeD [OF sh]
  from g d(10) [OF cur] i(1) have iL: "i < length st0" by (auto simp: graph_ok_def)
  have nth: "\<And>j. j < length st0 \<Longrightarrow> store (mark tok cur i k s) ! j =
     (if j = i then (store s ! i)\<lparr>mn_token := tok, mn_cost := mn_cost (store s ! cur) + 1,
                                  mn_prev := Some cur\<rparr> else store s ! j)"
    using store_mark [of i s] iL d(2) by simp
  have ib: "\<And>j. in_bucket (mark tok cur i k s) j \<longleftrightarrow> j = i \<or> in_bucket s j"
    using in_bucket_mark [of k s] k d(1) by simp
  show ?thesis
    unfolding inv_shape_def
  proof (intro conjI allI impI ballI)
    fix j assume "j < length st0"
    then show "mn_nodes (store (mark tok cur i k s) ! j) = mn_nodes (st0 ! j)"
      "mn_x (store (mark tok cur i k s) ! j) = mn_x (st0 ! j)"
      "mn_y (store (mark tok cur i k s) ! j) = mn_y (st0 ! j)"
      using d(4-6) [of j] by (auto simp: nth)
  next
    fix j assume "j < length st0" "mn_token (store (mark tok cur i k s) ! j) \<noteq> tok"
    then show "store (mark tok cur i k s) ! j = st0 ! j"
      using d(7) [of j] by (simp add: nth split: if_splits)
  next
    fix n assume "in_bucket (mark tok cur i k s) n"
    then show "n < length st0" "mn_token (store (mark tok cur i k s) ! n) = tok"
      using iL d(8,9) [of n] by (auto simp: ib nth)
  next
    fix n assume n: "n \<in> set (searched (mark tok cur i k s))"
    then show "n < length st0" using d(10) by simp
    with n show "n = start \<or> mn_token (store (mark tok cur i k s) ! n) = tok"
      using d(11) [of n] by (auto simp: nth)
  qed (use d in simp_all)
qed

lemma mark_marked:
  assumes sh: "inv_shape tok start st0 s" and mk: "inv_marked tok start st0 s"
    and g: "graph_ok st0"
    and cur: "cur \<in> set (searched s)"
    and i: "i \<in> set (mn_nodes (st0 ! cur))" "mn_token (store s ! i) \<noteq> tok"
  shows "inv_marked tok start st0 (mark tok cur i k s)"
proof -
  let ?s' = "mark tok cur i k s"
  note d = inv_shapeD [OF sh]
  from mk have c0: "0 \<le> mn_cost (store s ! start)"
    and m: "\<And>j. j < length st0 \<Longrightarrow> mn_token (store s ! j) = tok \<Longrightarrow>
        (\<exists>p. mn_prev (store s ! j) = Some p \<and> p < length st0 \<and> j \<in> set (mn_nodes (st0 ! p)) \<and>
             (p = start \<or> mn_token (store s ! p) = tok) \<and>
             (j \<noteq> start \<longrightarrow> 1 \<le> mn_cost (store s ! j) \<and>
                (p \<noteq> start \<longrightarrow> mn_cost (store s ! j) = mn_cost (store s ! p) + 1)))"
    unfolding inv_marked_def by blast+
  have curL: "cur < length st0" by (rule d(10) [OF cur])
  from g curL i(1) have iL: "i < length st0" by (auto simp: graph_ok_def)
  have nth: "\<And>j. j < length st0 \<Longrightarrow> store ?s' ! j =
     (if j = i then (store s ! i)\<lparr>mn_token := tok, mn_cost := mn_cost (store s ! cur) + 1,
                                  mn_prev := Some cur\<rparr> else store s ! j)"
    using store_mark [of i s] iL d(2) by simp
  have curm: "cur = start \<or> mn_token (store s ! cur) = tok" using d(11) [OF cur] by blast
  have ccur: "0 \<le> mn_cost (store s ! cur)"
  proof (cases "cur = start")
    case True with c0 show ?thesis by simp
  next
    case False
    with curm m [OF curL] show ?thesis by auto
  qed
  have ci: "cur \<noteq> start \<Longrightarrow> cur \<noteq> i" using curm i(2) by auto
  have 1: "0 \<le> mn_cost (store ?s' ! start)"
    using c0 ccur d(3) by (simp add: nth)
  have 2: "\<forall>j<length st0. mn_token (store ?s' ! j) = tok \<longrightarrow>
        (\<exists>p. mn_prev (store ?s' ! j) = Some p \<and> p < length st0 \<and> j \<in> set (mn_nodes (st0 ! p)) \<and>
             (p = start \<or> mn_token (store ?s' ! p) = tok) \<and>
             (j \<noteq> start \<longrightarrow> 1 \<le> mn_cost (store ?s' ! j) \<and>
                (p \<noteq> start \<longrightarrow> mn_cost (store ?s' ! j) = mn_cost (store ?s' ! p) + 1)))"
  proof (intro allI impI)
    fix j assume jL: "j < length st0" and jm: "mn_token (store ?s' ! j) = tok"
    show "\<exists>p. mn_prev (store ?s' ! j) = Some p \<and> p < length st0 \<and> j \<in> set (mn_nodes (st0 ! p)) \<and>
             (p = start \<or> mn_token (store ?s' ! p) = tok) \<and>
             (j \<noteq> start \<longrightarrow> 1 \<le> mn_cost (store ?s' ! j) \<and>
                (p \<noteq> start \<longrightarrow> mn_cost (store ?s' ! j) = mn_cost (store ?s' ! p) + 1))"
    proof (cases "j = i")
      case True
      have a: "mn_prev (store ?s' ! j) = Some cur" using True iL by (simp add: nth)
      have b: "cur = start \<or> mn_token (store ?s' ! cur) = tok"
        using curm curL by (auto simp: nth)
      have c: "1 \<le> mn_cost (store ?s' ! j)" using True iL ccur by (simp add: nth)
      have e: "cur \<noteq> start \<longrightarrow> mn_cost (store ?s' ! j) = mn_cost (store ?s' ! cur) + 1"
        using True iL curL ci by (simp add: nth)
      have f: "j \<in> set (mn_nodes (st0 ! cur))" using i(1) True by simp
      from a curL f b c e show ?thesis by blast
    next
      case False
      with jm jL have jm0: "mn_token (store s ! j) = tok" by (simp add: nth)
      from m [OF jL jm0] obtain p where p: "mn_prev (store s ! j) = Some p" "p < length st0"
        "j \<in> set (mn_nodes (st0 ! p))" "p = start \<or> mn_token (store s ! p) = tok"
        "j \<noteq> start \<longrightarrow> 1 \<le> mn_cost (store s ! j) \<and>
                (p \<noteq> start \<longrightarrow> mn_cost (store s ! j) = mn_cost (store s ! p) + 1)"
        by blast
      have pi: "p \<noteq> start \<Longrightarrow> p \<noteq> i" using p(4) i(2) by auto
      have a: "mn_prev (store ?s' ! j) = Some p" using False jL p(1) by (simp add: nth)
      have b: "p = start \<or> mn_token (store ?s' ! p) = tok" using p(2,4) by (auto simp: nth)
      have c: "j \<noteq> start \<longrightarrow> 1 \<le> mn_cost (store ?s' ! j) \<and>
                (p \<noteq> start \<longrightarrow> mn_cost (store ?s' ! j) = mn_cost (store ?s' ! p) + 1)"
        using False jL p(2,5) pi by (auto simp: nth)
      from a p(2,3) b c show ?thesis by blast
    qed
  qed
  from 1 2 show ?thesis unfolding inv_marked_def by blast
qed

lemma mark_pending:
  assumes sh: "inv_shape tok start st0 s" and pe: "inv_pending tok start st0 s"
    and g: "graph_ok st0"
    and cur: "cur \<in> set (searched s)"
    and i: "i \<in> set (mn_nodes (st0 ! cur))"
    and k: "k < 4"
  shows "inv_pending tok start st0 (mark tok cur i k s)"
proof -
  let ?s' = "mark tok cur i k s"
  note d = inv_shapeD [OF sh]
  from pe have m: "\<And>j. j < length st0 \<Longrightarrow> mn_token (store s ! j) = tok \<Longrightarrow>
        link_reach st0 start j \<and> (j \<in> set (searched s) \<or> in_bucket s j)"
    unfolding inv_pending_def by blast
  have curL: "cur < length st0" by (rule d(10) [OF cur])
  from g curL i(1) have iL: "i < length st0" by (auto simp: graph_ok_def)
  have nth: "\<And>j. j < length st0 \<Longrightarrow> store ?s' ! j =
     (if j = i then (store s ! i)\<lparr>mn_token := tok, mn_cost := mn_cost (store s ! cur) + 1,
                                  mn_prev := Some cur\<rparr> else store s ! j)"
    using store_mark [of i s] iL d(2) by simp
  have ib: "\<And>j. in_bucket ?s' j \<longleftrightarrow> j = i \<or> in_bucket s j"
    using in_bucket_mark [of k s] k d(1) by simp
  have curm: "cur = start \<or> mn_token (store s ! cur) = tok" using d(11) [OF cur] by blast
  have rcur: "link_reach st0 start cur"
    using curm m [OF curL] by (auto simp: link_reach_refl)
  show ?thesis
    unfolding inv_pending_def
  proof (intro allI impI)
    fix j assume jL: "j < length st0" and jm: "mn_token (store ?s' ! j) = tok"
    show "link_reach st0 start j \<and> (j \<in> set (searched ?s') \<or> in_bucket ?s' j)"
    proof (cases "j = i")
      case True
      with link_reach_step [OF rcur i(1)] show ?thesis by (simp add: ib)
    next
      case False
      with jm jL have "mn_token (store s ! j) = tok" by (simp add: nth)
      from m [OF jL this] show ?thesis by (auto simp: ib)
    qed
  qed
qed

lemma mark_closed:
  assumes sh: "inv_shape tok start st0 s" and cl: "inv_closed tok st0 X s"
    and g: "graph_ok st0"
    and cur: "cur \<in> set (searched s)"
    and i: "i \<in> set (mn_nodes (st0 ! cur))"
  shows "inv_closed tok st0 X (mark tok cur i k s)"
proof -
  note d = inv_shapeD [OF sh]
  from g d(10) [OF cur] i(1) have iL: "i < length st0" by (auto simp: graph_ok_def)
  have nth: "\<And>j. j < length st0 \<Longrightarrow> store (mark tok cur i k s) ! j =
     (if j = i then (store s ! i)\<lparr>mn_token := tok, mn_cost := mn_cost (store s ! cur) + 1,
                                  mn_prev := Some cur\<rparr> else store s ! j)"
    using store_mark [of i s] iL d(2) by simp
  from cl have X: "X \<subseteq> set (searched s)"
    and c: "\<And>n j. n \<in> X \<Longrightarrow> j \<in> set (mn_nodes (st0 ! n)) \<Longrightarrow> mn_token (store s ! j) = tok"
    unfolding inv_closed_def by blast+
  show ?thesis
    unfolding inv_closed_def
  proof (intro conjI ballI)
    show "X \<subseteq> set (searched (mark tok cur i k s))" using X by simp
  next
    fix n j assume n: "n \<in> X" and j: "j \<in> set (mn_nodes (st0 ! n))"
    from n X d(10) have "n < length st0" by blast
    with g j have "j < length st0" by (auto simp: graph_ok_def)
    with c [OF n j] show "mn_token (store (mark tok cur i k s) ! j) = tok"
      by (simp add: nth)
  qed
qed

lemma mark_inv:
  assumes inv: "bucket_inv tok start st0 X s" and g: "graph_ok st0"
    and cur: "cur \<in> set (searched s)"
    and i: "i \<in> set (mn_nodes (st0 ! cur))" "mn_token (store s ! i) \<noteq> tok"
    and k: "k < 4"
  shows "bucket_inv tok start st0 X (mark tok cur i k s)"
  using inv mark_shape [OF _ g cur i k] mark_marked [OF _ _ g cur i] mark_pending [OF _ _ g cur i(1) k]
    mark_closed [OF _ _ g cur i(1)]
  unfolding bucket_inv_def by blast

lemma unmarked_mark:
  assumes "i < length (store s)" "mn_token (store s ! i) \<noteq> tok"
  shows "unmarked tok (mark tok cur i k s) = unmarked tok s - {i}"
proof -
  have "\<And>j. j < length (store s) \<Longrightarrow>
      mn_token (store (mark tok cur i k s) ! j) \<noteq> tok \<longleftrightarrow> j \<noteq> i \<and> mn_token (store s ! j) \<noteq> tok"
    using assms(1) by (simp add: store_mark)
  then show ?thesis unfolding unmarked_def by auto
qed

lemma visit_links_skip:
  "\<not> tok > mn_token (store s ! i) \<Longrightarrow>
   visit_links tok end_x end_y cur (i # rest) s = visit_links tok end_x end_y cur rest s"
  by simp

lemma visit_links_mark:
  assumes "i < length (store s)" "tok > mn_token (store s ! i)"
    and "0 \<le> get_cost (mn_x (store s ! i)) (mn_y (store s ! i)) end_x end_y
                    + (mn_cost (store s ! cur) + 1) - base_cost s"
    and "get_cost (mn_x (store s ! i)) (mn_y (store s ! i)) end_x end_y
                    + (mn_cost (store s ! cur) + 1) - base_cost s < int (length (opens s))"
  shows "visit_links tok end_x end_y cur (i # rest) s =
     visit_links tok end_x end_y cur rest
       (mark tok cur i (nat (get_cost (mn_x (store s ! i)) (mn_y (store s ! i)) end_x end_y
                    + (mn_cost (store s ! cur) + 1) - base_cost s)) s)"
  using assms by (simp add: Let_def mark_def)

lemma visit_links_throw:
  assumes "i < length (store s)" "tok > mn_token (store s ! i)"
    and "\<not> (0 \<le> get_cost (mn_x (store s ! i)) (mn_y (store s ! i)) end_x end_y
                    + (mn_cost (store s ! cur) + 1) - base_cost s \<and>
      get_cost (mn_x (store s ! i)) (mn_y (store s ! i)) end_x end_y
                    + (mn_cost (store s ! cur) + 1) - base_cost s < int (length (opens s)))"
  shows "\<exists>t. visit_links tok end_x end_y cur (i # rest) s = Inl t"
  using assms by (auto simp: Let_def)

lemma visit_links_inv:
  assumes g: "graph_ok st0" and fr: "fresh tok st0"
  shows "bucket_inv tok start st0 X s \<Longrightarrow> cur \<in> set (searched s) \<Longrightarrow>
     set ls \<subseteq> set (mn_nodes (st0 ! cur)) \<Longrightarrow>
     visit_links tok end_x end_y cur ls s = Inr s' \<Longrightarrow>
     bucket_inv tok start st0 X s' \<and> searched s' = searched s \<and> base_cost s' = base_cost s \<and>
     (\<forall>j\<in>set ls. mn_token (store s' ! j) = tok) \<and>
     unmarked tok s' \<subseteq> unmarked tok s \<and>
     (unmarked tok s' = unmarked tok s \<longrightarrow> opens s' = opens s)"
proof (induction ls arbitrary: s)
  case Nil
  then show ?case by simp
next
  case (Cons i rest)
  from Cons.prems(1) have sh: "inv_shape tok start st0 s" by (simp add: bucket_inv_def)
  note d = inv_shapeD [OF sh]
  from Cons.prems(3) have il: "i \<in> set (mn_nodes (st0 ! cur))"
    and rl: "set rest \<subseteq> set (mn_nodes (st0 ! cur))" by simp_all
  from g d(10) [OF Cons.prems(2)] il have iL: "i < length st0" by (auto simp: graph_ok_def)
  then have iL': "i < length (store s)" using d(2) by simp
  have lt: "mn_token (store s ! i) \<noteq> tok \<Longrightarrow> mn_token (store s ! i) < tok"
    using d(7) [OF iL] fr iL by (auto simp: fresh_def)
  have mono: "\<And>t j. bucket_inv tok start st0 X t \<Longrightarrow> unmarked tok t \<subseteq> unmarked tok s \<Longrightarrow>
      mn_token (store s ! j) = tok \<Longrightarrow> j < length st0 \<Longrightarrow> mn_token (store t ! j) = tok"
  proof -
    fix t j assume t: "bucket_inv tok start st0 X t" "unmarked tok t \<subseteq> unmarked tok s"
      "mn_token (store s ! j) = tok" "j < length st0"
    from t(1) have "length (store t) = length st0" by (simp add: bucket_inv_def inv_shape_def)
    with t(2-4) d(2) show "mn_token (store t ! j) = tok" by (auto simp: unmarked_def)
  qed
  show ?case
  proof (cases "mn_token (store s ! i) = tok")
    case True
    then have "visit_links tok end_x end_y cur (i # rest) s = visit_links tok end_x end_y cur rest s"
      by (intro visit_links_skip) simp
    with Cons.prems(4) have r: "visit_links tok end_x end_y cur rest s = Inr s'" by simp
    note ih = Cons.IH [OF Cons.prems(1,2) rl r]
    from ih mono [of s' i] True iL have "mn_token (store s' ! i) = tok" by blast
    with ih show ?thesis by simp
  next
    case False
    let ?idx = "get_cost (mn_x (store s ! i)) (mn_y (store s ! i)) end_x end_y
                    + (mn_cost (store s ! cur) + 1) - base_cost s"
    from False lt have gt: "tok > mn_token (store s ! i)" by simp
    have ok: "0 \<le> ?idx \<and> ?idx < int (length (opens s))"
    proof (rule ccontr)
      assume "\<not> (0 \<le> ?idx \<and> ?idx < int (length (opens s)))"
      from visit_links_throw [OF iL' gt this, of rest] Cons.prems(4) show False by auto
    qed
    then have ok1: "0 \<le> ?idx" and ok2: "?idx < int (length (opens s))" by blast+
    from visit_links_mark [OF iL' gt ok1 ok2, of rest] Cons.prems(4)
    have r: "visit_links tok end_x end_y cur rest (mark tok cur i (nat ?idx) s) = Inr s'"
      by simp
    let ?s1 = "mark tok cur i (nat ?idx) s"
    from ok1 ok2 d(1) have k: "nat ?idx < 4" by linarith
    have inv1: "bucket_inv tok start st0 X ?s1"
      by (rule mark_inv [OF Cons.prems(1) g Cons.prems(2) il False k])
    have c1: "cur \<in> set (searched ?s1)" using Cons.prems(2) by simp
    note ih = Cons.IH [OF inv1 c1 rl r]
    have u1: "unmarked tok ?s1 = unmarked tok s - {i}" by (rule unmarked_mark [OF iL' False])
    have iu: "i \<in> unmarked tok s" using iL' False by (simp add: unmarked_def)
    from ih u1 have sub: "unmarked tok s' \<subseteq> unmarked tok s" by blast
    from ih u1 iu have ne: "unmarked tok s' \<noteq> unmarked tok s" by blast
    have "mn_token (store ?s1 ! i) = tok" using iL' by (simp add: store_mark)
    with ih mono [of s' i] have "i \<notin> unmarked tok s'" 
      using u1 by (auto simp: unmarked_def)
    then have mi: "mn_token (store s' ! i) = tok"
      using ih iL by (auto simp: unmarked_def bucket_inv_def inv_shape_def)
    from ih sub ne mi show ?thesis by simp
  qed
qed

lemma walk_prev_ok:
  assumes sh: "inv_shape tok start st0 s" and mk: "inv_marked tok start st0 s"
  shows "cur < length st0 \<Longrightarrow> mn_token (store s ! cur) = tok \<Longrightarrow> cur \<noteq> start \<Longrightarrow>
     \<exists>rest. walk_prev (store s) start cur acc = Some (acc @ rest) \<and>
            back_chain (store s) start (cur # rest)"
proof (induction "nat (mn_cost (store s ! cur))" arbitrary: cur acc rule: less_induct)
  case less
  note d = inv_shapeD [OF sh]
  from mk have m: "\<And>j. j < length st0 \<Longrightarrow> mn_token (store s ! j) = tok \<Longrightarrow>
        (\<exists>p. mn_prev (store s ! j) = Some p \<and> p < length st0 \<and> j \<in> set (mn_nodes (st0 ! p)) \<and>
             (p = start \<or> mn_token (store s ! p) = tok) \<and>
             (j \<noteq> start \<longrightarrow> 1 \<le> mn_cost (store s ! j) \<and>
                (p \<noteq> start \<longrightarrow> mn_cost (store s ! j) = mn_cost (store s ! p) + 1)))"
    unfolding inv_marked_def by blast
  from m [OF less.prems(1,2)] less.prems(3) obtain p where p: "mn_prev (store s ! cur) = Some p"
    "p < length st0" "cur \<in> set (mn_nodes (st0 ! p))" "p = start \<or> mn_token (store s ! p) = tok"
    "1 \<le> mn_cost (store s ! cur)" "p \<noteq> start \<longrightarrow> mn_cost (store s ! cur) = mn_cost (store s ! p) + 1"
    by blast
  have lk: "cur \<in> set (mn_nodes (store s ! p))" using p(2,3) d(4) by simp
  show ?case
  proof (cases "p = start")
    case True
    have "walk_prev (store s) start cur acc = Some (acc @ [])"
      by (subst walk_prev.simps) (simp add: p(1) True)
    moreover have "back_chain (store s) start [cur]"
      using p(1) lk True less.prems(3) by simp
    ultimately show ?thesis by blast
  next
    case False
    with p have pm: "mn_token (store s ! p) = tok" and c: "mn_cost (store s ! cur) = mn_cost (store s ! p) + 1"
      by blast+
    from m [OF p(2) pm] False have "1 \<le> mn_cost (store s ! p)" by blast
    with c have "nat (mn_cost (store s ! p)) < nat (mn_cost (store s ! cur))" by simp
    from less.hyps [OF this p(2) pm False, of "acc @ [p]"] obtain rest where
      r: "walk_prev (store s) start p (acc @ [p]) = Some ((acc @ [p]) @ rest)"
         "back_chain (store s) start (p # rest)" by blast
    have "walk_prev (store s) start cur acc = Some (acc @ (p # rest))"
      by (subst walk_prev.simps) (simp add: p(1) False r(1))
    moreover have "back_chain (store s) start (cur # p # rest)"
      using p(1) lk less.prems(3) c r(2) by simp
    ultimately show ?thesis by blast
  qed
qed

lemma in_bucket_pop0:
  assumes "0 < length (opens s)" "opens s ! 0 \<noteq> []"
  shows "in_bucket s j \<longleftrightarrow> j = last (opens s ! 0) \<or> in_bucket (pop0 s) j"
proof -
  obtain b0 bs where o: "opens s = b0 # bs" using assms(1) by (cases "opens s") auto
  with assms(2) have ne: "b0 \<noteq> []" by simp
  then have "set b0 = set (butlast b0 @ [last b0])" by simp
  then have "set b0 = insert (last b0) (set (butlast b0))" by simp
  then show ?thesis
    unfolding in_bucket_def pop0_def o by auto
qed

lemma in_bucket_shift:
  assumes "0 < length (opens s)" "opens s ! 0 = []"
  shows "in_bucket (shift s) j \<longleftrightarrow> in_bucket s j"
proof -
  obtain b0 bs where o: "opens s = b0 # bs" using assms(1) by (cases "opens s") auto
  with assms(2) have "b0 = []" by simp
  then show ?thesis unfolding in_bucket_def shift_def o by auto
qed

lemma pop0_inv:
  assumes inv: "bucket_inv tok start st0 X s" and ne: "opens s ! 0 \<noteq> []"
  shows "bucket_inv tok start st0 X (pop0 s)"
    and "last (opens s ! 0) < length st0"
    and "mn_token (store s ! last (opens s ! 0)) = tok"
proof -
  let ?cur = "last (opens s ! 0)"
  from inv have sh: "inv_shape tok start st0 s" and mk: "inv_marked tok start st0 s"
    and pe: "inv_pending tok start st0 s"
    and cl: "inv_closed tok st0 X s" by (simp_all add: bucket_inv_def)
  note d = inv_shapeD [OF sh]
  from d(1) have l0: "0 < length (opens s)" by simp
  note ib = in_bucket_pop0 [OF l0 ne]
  from ib have cb: "in_bucket s ?cur" by blast
  show cL: "?cur < length st0" by (rule d(8) [OF cb])
  show cm: "mn_token (store s ! ?cur) = tok" by (rule d(9) [OF cb])
  have st: "store (pop0 s) = store s" and se: "searched (pop0 s) = searched s @ [?cur]"
    and lo: "length (opens (pop0 s)) = length (opens s)"
    by (simp_all add: pop0_def)
  have 1: "inv_shape tok start st0 (pop0 s)"
    unfolding inv_shape_def st se lo
  proof (intro conjI allI impI ballI)
    fix n assume "in_bucket (pop0 s) n"
    with ib have "in_bucket s n" by blast
    then show "n < length st0" "mn_token (store s ! n) = tok" using d(8,9) by blast+
  next
    fix n assume n: "n \<in> set (searched s @ [?cur])"
    then show "n < length st0" using d(10) cL by auto
    from n show "n = start \<or> mn_token (store s ! n) = tok" using d(11) cm by auto
  qed (use d in simp_all)
  have 2: "inv_marked tok start st0 (pop0 s)"
    using mk unfolding inv_marked_def st .
  have 4: "inv_pending tok start st0 (pop0 s)"
    unfolding inv_pending_def st se
  proof (intro allI impI)
    fix i assume "i < length st0" "mn_token (store s ! i) = tok"
    with pe have "link_reach st0 start i" "i \<in> set (searched s) \<or> in_bucket s i"
      unfolding inv_pending_def by blast+
    with ib [of i] show "link_reach st0 start i \<and> (i \<in> set (searched s @ [?cur]) \<or> in_bucket (pop0 s) i)"
      by auto
  qed
  have 3: "inv_closed tok st0 X (pop0 s)"
    using cl unfolding inv_closed_def st se by auto
  from 1 2 3 4 show "bucket_inv tok start st0 X (pop0 s)" by (simp add: bucket_inv_def)
qed

lemma shift_inv:
  assumes inv: "bucket_inv tok start st0 X s" and e: "opens s ! 0 = []"
  shows "bucket_inv tok start st0 X (shift s)"
proof -
  from inv have sh: "inv_shape tok start st0 s" and mk: "inv_marked tok start st0 s"
    and pe: "inv_pending tok start st0 s"
    and cl: "inv_closed tok st0 X s" by (simp_all add: bucket_inv_def)
  note d = inv_shapeD [OF sh]
  from d(1) have l0: "0 < length (opens s)" by simp
  note ib = in_bucket_shift [OF l0 e]
  have st: "store (shift s) = store s" and se: "searched (shift s) = searched s"
    and lo: "length (opens (shift s)) = length (opens s)"
    using l0 by (simp_all add: shift_def)
  have 1: "inv_shape tok start st0 (shift s)"
    using sh unfolding inv_shape_def st se lo ib .
  have 2: "inv_marked tok start st0 (shift s)"
    using mk unfolding inv_marked_def st .
  have 4: "inv_pending tok start st0 (shift s)"
    using pe unfolding inv_pending_def st se ib .
  have 3: "inv_closed tok st0 X (shift s)"
    using cl unfolding inv_closed_def st se .
  from 1 2 3 4 show ?thesis by (simp add: bucket_inv_def)
qed

lemma expand_inv_bucket:
  assumes g: "graph_ok st0" and fr: "fresh tok st0"
    and inv: "bucket_inv tok start st0 X s" and cur: "cur \<in> set (searched s)"
    and v: "visit_links tok end_x end_y cur (mn_nodes (store s ! cur)) s = Inr s'"
  shows "bucket_inv tok start st0 (insert cur X) s'" and "searched s' = searched s"
    and "unmarked tok s' \<subseteq> unmarked tok s"
    and "unmarked tok s' = unmarked tok s \<longrightarrow> opens s' = opens s"
proof -
  from inv have sh: "inv_shape tok start st0 s" by (simp add: bucket_inv_def)
  note d = inv_shapeD [OF sh]
  have lk: "mn_nodes (store s ! cur) = mn_nodes (st0 ! cur)" using d(4) d(10) [OF cur] by simp
  from visit_links_inv [OF g fr inv cur _ v [unfolded lk]]
  have r: "bucket_inv tok start st0 X s'" "searched s' = searched s"
    "\<forall>j\<in>set (mn_nodes (st0 ! cur)). mn_token (store s' ! j) = tok"
    "unmarked tok s' \<subseteq> unmarked tok s" "unmarked tok s' = unmarked tok s \<longrightarrow> opens s' = opens s"
    by simp_all
  from r(1) have "inv_closed tok st0 X s'" by (simp add: bucket_inv_def)
  with r(2,3) cur have "inv_closed tok st0 (insert cur X) s'"
    unfolding inv_closed_def by auto
  with r(1) show "bucket_inv tok start st0 (insert cur X) s'" by (simp add: bucket_inv_def)
  from r show "searched s' = searched s" "unmarked tok s' \<subseteq> unmarked tok s"
    "unmarked tok s' = unmarked tok s \<longrightarrow> opens s' = opens s" by blast+
qed

lemma search_body_cases:
  obtains (null) "opens s ! 0 = []" "opens s ! 1 = []" "opens s ! 2 = []" "opens s ! 3 = []"
      "search_body tok e end_x end_y s = Inl (Inr None, s)"
  | (found) "opens s ! 0 \<noteq> []" "last (opens s ! 0) = e"
      "search_body tok e end_x end_y s = Inl (Inr (Some e), pop0 s)"
  | (throw) s2 where "opens s ! 0 \<noteq> []" "last (opens s ! 0) \<noteq> e"
      "search_body tok e end_x end_y s = Inl (Inl TypeError, s2)"
  | (expand) s2 where "opens s ! 0 \<noteq> []" "last (opens s ! 0) \<noteq> e"
      "visit_links tok end_x end_y (last (opens s ! 0))
         (mn_nodes (store (pop0 s) ! last (opens s ! 0))) (pop0 s) = Inr s2"
      "search_body tok e end_x end_y s = Inr s2"
  | (shift) "opens s ! 0 = []" "\<not> (opens s ! 1 = [] \<and> opens s ! 2 = [] \<and> opens s ! 3 = [])"
      "search_body tok e end_x end_y s = Inr (shift s)"
proof (cases "opens s ! 0 = []")
  case True
  then show ?thesis using null shift
    by (cases "opens s ! 1 = [] \<and> opens s ! 2 = [] \<and> opens s ! 3 = []")
       (auto simp: search_body_def shift_def)
next
  case ne: False
  show ?thesis
  proof (cases "last (opens s ! 0) = e")
    case True
    with ne show ?thesis using found by (simp add: search_body_def pop0_def Let_def)
  next
    case False
    show ?thesis
    proof (cases "visit_links tok end_x end_y (last (opens s ! 0))
         (mn_nodes (store (pop0 s) ! last (opens s ! 0))) (pop0 s)")
      case (Inl s2)
      with ne False have "search_body tok e end_x end_y s = Inl (Inl TypeError, s2)"
        by (simp add: search_body_def pop0_def Let_def)
      with ne False show ?thesis using throw by blast
    next
      case (Inr s2)
      with ne False have "search_body tok e end_x end_y s = Inr s2"
        by (simp add: search_body_def pop0_def Let_def)
      with ne False Inr show ?thesis using expand by blast
    qed
  qed
qed

lemma len4: "length xs = 4 \<Longrightarrow> \<exists>a b c d. xs = [a, b, c, d]"
  by (auto simp: numeral_eq_Suc length_Suc_conv)

lemma finite_unmarked: "finite (unmarked tok s)"
  unfolding unmarked_def by simp

lemma closed_under_links:
  assumes g: "graph_ok st0"
    and inv: "bucket_inv tok start st0 (set (searched s)) s"
    and emp: "\<And>n. \<not> in_bucket s n"
    and r: "link_reach st0 start k"
  shows "k \<in> set (searched s)"
  using r unfolding link_reach_def
proof (induction rule: rtranclp_induct)
  case base
  from inv show ?case by (simp add: bucket_inv_def inv_shape_def)
next
  case (step y z)
  from inv have sh: "inv_shape tok start st0 s" and pe: "inv_pending tok start st0 s"
    and cl: "inv_closed tok st0 (set (searched s)) s" by (simp_all add: bucket_inv_def)
  note d = inv_shapeD [OF sh]
  from cl step(3,2) have zm: "mn_token (store s ! z) = tok" unfolding inv_closed_def by blast
  from g d(10) [OF step(3)] step(2) have "z < length st0" by (auto simp: graph_ok_def)
  with pe zm emp show ?case unfolding inv_pending_def by blast
qed

lemma expand_measure:
  assumes l: "length (opens s) = 4" and ne: "opens s ! 0 \<noteq> []"
    and sub: "unmarked tok s2 \<subseteq> unmarked tok (pop0 s)"
    and eq: "unmarked tok s2 = unmarked tok (pop0 s) \<longrightarrow> opens s2 = opens (pop0 s)"
  shows "(s2, s) \<in> measures [\<lambda>s. card (unmarked tok s), m_items, m_weight]"
proof -
  have u: "unmarked tok (pop0 s) = unmarked tok s" by (simp add: unmarked_def pop0_def)
  from len4 [OF l] obtain a b c d where o: "opens s = [a, b, c, d]" by blast
  with ne have a: "a \<noteq> []" by simp
  show ?thesis
  proof (cases "unmarked tok s2 = unmarked tok s")
    case True
    with eq u have "opens s2 = [butlast a, b, c, d]" by (simp add: pop0_def o)
    with a have "m_items s2 < m_items s" by (simp add: m_items_def o)
    with True show ?thesis by simp
  next
    case False
    with sub u have "unmarked tok s2 \<subset> unmarked tok s" by blast
    then have "card (unmarked tok s2) < card (unmarked tok s)"
      by (intro psubset_card_mono finite_unmarked)
    then show ?thesis by simp
  qed
qed

lemma shift_measure:
  assumes l: "length (opens s) = 4" and e: "opens s ! 0 = []"
    and ne: "\<not> (opens s ! 1 = [] \<and> opens s ! 2 = [] \<and> opens s ! 3 = [])"
  shows "(shift s, s) \<in> measures [\<lambda>s. card (unmarked tok s), m_items, m_weight]"
proof -
  have u: "unmarked tok (shift s) = unmarked tok s" by (simp add: unmarked_def shift_def)
  from len4 [OF l] obtain a b c d where o: "opens s = [a, b, c, d]" by blast
  with e have a: "a = []" by simp
  have o': "opens (shift s) = [b, c, d, []]" by (simp add: shift_def o)
  have 1: "m_items (shift s) = m_items s" by (simp add: m_items_def o o' a)
  from ne have "b \<noteq> [] \<or> c \<noteq> [] \<or> d \<noteq> []" by (simp add: o)
  then have 2: "m_weight (shift s) < m_weight s" by (auto simp: m_weight_def o o')
  from u 1 2 show ?thesis by simp
qed

lemma search_loop_ok:
  assumes g: "graph_ok st0" and fr: "fresh tok st0"
  shows "bucket_inv tok start st0 (set (searched s)) s \<Longrightarrow> e \<notin> set (searched s) \<Longrightarrow> e < length st0 \<Longrightarrow>
     \<exists>res st'. search_loop tok start e end_x end_y s = Some (res, st') \<and> bucket_post st0 start e res st'"
proof (induction s rule: wf_induct_rule [OF wf_measures [of "[\<lambda>s. card (unmarked tok s), m_items, m_weight]"]])
  case (1 s)
  note inv = "1.prems"(1)
  from inv have sh: "inv_shape tok start st0 s" and mk: "inv_marked tok start st0 s"
    and pe: "inv_pending tok start st0 s" by (simp_all add: bucket_inv_def)
  note d = inv_shapeD [OF sh]
  show ?case
  proof (cases rule: search_body_cases [of s tok e end_x end_y])
    case null
    from len4 [OF d(1)] null(1-4) have "opens s = [[], [], [], []]" by auto
    then have emp: "\<And>n. \<not> in_bucket s n" by (simp add: in_bucket_def)
    have "\<not> link_reach st0 start e"
      using closed_under_links [OF g inv emp] "1.prems"(2) by blast
    moreover have "search_loop tok start e end_x end_y s = Some (Inr None, store s)"
      by (subst search_loop.simps) (simp add: null(5))
    ultimately show ?thesis by (simp add: bucket_post_def)
  next
    case found
    note p = pop0_inv [OF inv found(1), unfolded found(2)]
    from p(1) have sh1: "inv_shape tok start st0 (pop0 s)" and mk1: "inv_marked tok start st0 (pop0 s)"
      by (simp_all add: bucket_inv_def)
    have st: "store (pop0 s) = store s" by (simp add: pop0_def)
    from d(12) "1.prems"(2) have ne: "e \<noteq> start" by blast
    from walk_prev_ok [OF sh1 mk1 p(2) p(3) [folded st] ne, of "[e]"] obtain rest where
      w: "walk_prev (store (pop0 s)) start e [e] = Some ([e] @ rest)"
         "back_chain (store (pop0 s)) start (e # rest)" by blast
    from pe p(2,3) have "link_reach st0 start e" unfolding inv_pending_def by blast
    moreover have "search_loop tok start e end_x end_y s = Some (Inr (Some (e # rest)), store (pop0 s))"
      by (subst search_loop.simps) (simp add: found(3) w(1))
    ultimately show ?thesis using w(2) by (simp add: bucket_post_def)
  next
    case (throw s2)
    have "search_loop tok start e end_x end_y s = Some (Inl TypeError, store s2)"
      by (subst search_loop.simps) (simp add: throw(3))
    then show ?thesis by (simp add: bucket_post_def)
  next
    case (expand s2)
    let ?cur = "last (opens s ! 0)"
    note p = pop0_inv [OF inv expand(1)]
    have se: "searched (pop0 s) = searched s @ [?cur]" by (simp add: pop0_def)
    then have c: "?cur \<in> set (searched (pop0 s))" by simp
    note x = expand_inv_bucket [OF g fr p(1) c expand(3)]
    have X: "insert ?cur (set (searched s)) = set (searched s2)" by (simp add: x(2) se)
    have inv2: "bucket_inv tok start st0 (set (searched s2)) s2" using x(1) unfolding X .
    have e2: "e \<notin> set (searched s2)" using "1.prems"(2) expand(2) by (simp add: x(2) se)
    have m: "(s2, s) \<in> measures [\<lambda>s. card (unmarked tok s), m_items, m_weight]"
      by (rule expand_measure [OF d(1) expand(1) x(3,4)])
    from "1.IH" [OF m inv2 e2 "1.prems"(3)] obtain res st' where
      "search_loop tok start e end_x end_y s2 = Some (res, st')" "bucket_post st0 start e res st'"
      by blast
    moreover have "search_loop tok start e end_x end_y s = search_loop tok start e end_x end_y s2"
      by (subst search_loop.simps) (simp add: expand(4))
    ultimately show ?thesis by simp
  next
    case shift
    have se: "searched (shift s) = searched s" by (simp add: shift_def)
    have inv2: "bucket_inv tok start st0 (set (searched (shift s))) (shift s)"
      unfolding se by (rule shift_inv [OF inv shift(1)])
    have m: "(shift s, s) \<in> measures [\<lambda>s. card (unmarked tok s), m_items, m_weight]"
      by (rule shift_measure [OF d(1) shift(1,2)])
    from "1.IH" [OF m inv2 _ "1.prems"(3)] "1.prems"(2) obtain res st' where
      "search_loop tok start e end_x end_y (shift s) = Some (res, st')" "bucket_post st0 start e res st'"
      unfolding se by blast
    moreover have "search_loop tok start e end_x end_y s = search_loop tok start e end_x end_y (shift s)"
      by (subst search_loop.simps) (simp add: shift(3))
    ultimately show ?thesis by simp
  qed
qed

lemma search_init_pop0:
  "pop0 (search_init st0 start e) =
     \<lparr>store = st0, opens = [[], [], [], []], base_cost = base_cost (search_init st0 start e),
      searched = [start]\<rparr>"
  by (simp add: pop0_def search_init_def)

lemma bucket_inv_first:
  assumes fr: "fresh tok st0" and s: "start < length st0"
  shows "bucket_inv tok start st0 {} (pop0 (search_init st0 start e))"
proof -
  let ?s1 = "pop0 (search_init st0 start e)"
  have un: "\<And>i. i < length st0 \<Longrightarrow> mn_token (st0 ! i) \<noteq> tok"
    using fr by (auto simp: fresh_def)
  have nb: "\<And>n. \<not> in_bucket ?s1 n" by (simp add: search_init_pop0 in_bucket_def)
  have 1: "inv_shape tok start st0 ?s1"
    unfolding inv_shape_def using s nb by (simp add: search_init_pop0)
  have 2: "inv_marked tok start st0 ?s1"
    unfolding inv_marked_def using fr s un by (simp add: search_init_pop0 fresh_def)
  have 3: "inv_pending tok start st0 ?s1"
    unfolding inv_pending_def using un by (simp add: search_init_pop0)
  have 4: "inv_closed tok st0 {} ?s1"
    unfolding inv_closed_def by simp
  from 1 2 3 4 show ?thesis by (simp add: bucket_inv_def)
qed

lemma search_ok:
  assumes g: "graph_ok st0" and fr: "fresh tok st0"
    and s: "start < length st0" and e: "e < length st0"
  shows "\<exists>res st'. search tok st0 start e = Some (res, st') \<and>
           (if start = e then res = Inr (Some [e]) else bucket_post st0 start e res st')"
proof -
  let ?s0 = "search_init st0 start e"
  let ?ex = "mn_x (st0 ! e)" and ?ey = "mn_y (st0 ! e)"
  have o0: "opens ?s0 ! 0 = [start]" by (simp add: search_init_def)
  show ?thesis
  proof (cases rule: search_body_cases [of ?s0 tok e ?ex ?ey])
    case null
    with o0 show ?thesis by simp
  next
    case found
    with o0 have se: "start = e" by simp
    from fr e have "mn_prev (st0 ! e) = None" by (simp add: fresh_def)
    then have "walk_prev st0 start e [e] = Some [e]"
      by (subst walk_prev.simps) simp
    then have "search tok st0 start e = Some (Inr (Some [e]), st0)"
      unfolding search_def
      by (subst search_loop.simps) (simp add: found(3) search_init_pop0)
    with se show ?thesis by simp
  next
    case (throw s2)
    with o0 have ne: "start \<noteq> e" by simp
    have "search tok st0 start e = Some (Inl TypeError, store s2)"
      unfolding search_def by (subst search_loop.simps) (simp add: throw(3))
    with ne show ?thesis by (simp add: bucket_post_def)
  next
    case (expand s2)
    with o0 have ne: "start \<noteq> e" by simp
    have c: "start \<in> set (searched (pop0 ?s0))" by (simp add: search_init_pop0)
    note x = expand_inv_bucket [OF g fr bucket_inv_first [OF fr s] c expand(3) [unfolded o0, simplified]]
    have se: "searched s2 = [start]" using x(2) by (simp add: search_init_pop0)
    have inv2: "bucket_inv tok start st0 (set (searched s2)) s2" using x(1) by (simp add: se)
    have e2: "e \<notin> set (searched s2)" using ne by (simp add: se)
    from search_loop_ok [OF g fr inv2 e2 e, of ?ex ?ey] obtain res st' where
      r: "search_loop tok start e ?ex ?ey s2 = Some (res, st')" "bucket_post st0 start e res st'"
      by blast
    have "search tok st0 start e = search_loop tok start e ?ex ?ey s2"
      unfolding search_def by (subst search_loop.simps) (simp add: expand(4))
    with r ne show ?thesis by simp
  next
    case shift
    with o0 show ?thesis by simp
  qed
qed

lemma push_if_free_member: "j \<in> set (push_if_free data idx) \<longleftrightarrow> j = idx \<and> idx < length data \<and> data ! idx = 0"
  by (auto simp: push_if_free_def)

lemma node_links_bound: "j \<in> set (node_links w h data i) \<Longrightarrow> j < length data \<and> data ! j = 0"
  unfolding node_links_def Let_def
  by (auto simp: push_if_free_member split: if_splits)

lemma createNodes_nth:
  "i < length data \<Longrightarrow> createNodes w h data ! i =
     \<lparr>mn_nodes = node_links w h data i, mn_x = int (i mod w), mn_y = int (i div w),
      mn_v = data ! i, mn_prev = None, mn_cost = 0, mn_token = 0\<rparr>"
  by (simp add: createNodes_def)

lemma length_createNodes [simp]: "length (createNodes w h data) = length data"
  by (simp add: createNodes_def)

lemma createNodes_graph_ok: "graph_ok (createNodes w h data)"
  unfolding graph_ok_def by (auto simp: createNodes_nth dest: node_links_bound)

lemma createNodes_fresh: "fresh 1 (createNodes w h data)"
  unfolding fresh_def by (simp add: createNodes_nth)

lemma back_chain_not_start: "back_chain st start path \<Longrightarrow> start \<notin> set path"
  by (induction st start path rule: back_chain.induct) auto

lemma link_reach_trans: "link_reach st p q \<Longrightarrow> link_reach st q r \<Longrightarrow> link_reach st p r"
  unfolding link_reach_def by (rule rtranclp_trans)

lemma node_links_iff:
  "j \<in> set (node_links w h data i) \<longleftrightarrow>
     (0 < i mod w \<and> j = i mod w - 1 + (i div w) * w \<and> j < length data \<and> data ! j = 0) \<or>
     (i mod w + 1 < w \<and> j = i mod w + 1 + (i div w) * w \<and> j < length data \<and> data ! j = 0) \<or>
     (0 < i div w \<and> j = i mod w + (i div w - 1) * w \<and> j < length data \<and> data ! j = 0) \<or>
     (0 < i div w \<and> i mod w + 1 < w \<and> j = i mod w + 1 + (i div w - 1) * w \<and> j < length data \<and> data ! j = 0) \<or>
     (i div w + 1 < h \<and> j = i mod w + (i div w + 1) * w \<and> j < length data \<and> data ! j = 0) \<or>
     (i div w + 1 < h \<and> i mod w + 1 < w \<and> j = i mod w + 1 + (i div w + 1) * w \<and> j < length data \<and> data ! j = 0)"
proof -
  let ?x = "i mod w" and ?y = "i div w"
  have a: "int ?x < int w - 1 \<longleftrightarrow> ?x + 1 < w" by linarith
  have b: "int ?y < int h - 1 \<longleftrightarrow> ?y + 1 < h" by linarith
  have m: "j \<in> set (node_links w h data i) \<longleftrightarrow>
      j \<in> set (if 0 < ?x then push_if_free data (?x - 1 + ?y * w) else []) \<or>
      j \<in> set (if ?x + 1 < w then push_if_free data (?x + 1 + ?y * w) else []) \<or>
      j \<in> set (if 0 < ?y then push_if_free data (?x + (?y - 1) * w) @
                  (if ?x + 1 < w then push_if_free data (?x + 1 + (?y - 1) * w) else []) else []) \<or>
      j \<in> set (if ?y + 1 < h then push_if_free data (?x + (?y + 1) * w) @
                  (if ?x + 1 < w then push_if_free data (?x + 1 + (?y + 1) * w) else []) else [])"
    by (simp only: node_links_def Let_def idx_to_pos_x_def idx_to_pos_y_def pos_to_idx_def
        set_append Un_iff a b)
  have 1: "\<And>c k. j \<in> set (if c then push_if_free data k else []) \<longleftrightarrow>
      (c \<and> j = k \<and> j < length data \<and> data ! j = 0)"
    by (auto simp: push_if_free_member)
  have 2: "\<And>c d k l. j \<in> set (if c then push_if_free data k @
                  (if d then push_if_free data l else []) else []) \<longleftrightarrow>
      (c \<and> j = k \<and> j < length data \<and> data ! j = 0) \<or>
      (c \<and> d \<and> j = l \<and> j < length data \<and> data ! j = 0)"
    by (auto simp: push_if_free_member)
  show ?thesis
    by (simp only: m 1 2 disj_assoc)
qed

lemma index_bound:
  assumes "x < w" "y < h"
  shows "x + y * w < w * (h::nat)"
proof -
  from assms(2) have "Suc y \<le> h" by simp
  then have "Suc y * w \<le> h * w" by (rule mult_le_mono1)
  with assms(1) show ?thesis by (simp add: mult.commute)
qed

lemma free_links:
  assumes l: "length data = w * h" and z: "\<forall>k<length data. data ! k = 0"
    and x: "x < w" and y: "y < h"
  shows "Suc x < w \<Longrightarrow> Suc x + y * w \<in> set (node_links w h data (x + y * w))"
    and "Suc x < w \<Longrightarrow> x + y * w \<in> set (node_links w h data (Suc x + y * w))"
    and "Suc y < h \<Longrightarrow> x + Suc y * w \<in> set (node_links w h data (x + y * w))"
    and "Suc y < h \<Longrightarrow> x + y * w \<in> set (node_links w h data (x + Suc y * w))"
proof -
  have free: "\<And>x' y'. x' < w \<Longrightarrow> y' < h \<Longrightarrow>
      x' + y' * w < length data \<and> data ! (x' + y' * w) = 0"
    using index_bound [of _ w _ h] z unfolding l by blast
  have dm: "\<And>x' y'. x' < w \<Longrightarrow> (x' + y' * w) mod w = x' \<and> (x' + y' * w) div w = y'"
    by simp
  {
    assume s: "Suc x < w"
    from dm [OF x, of y] free [OF s y] s
    show "Suc x + y * w \<in> set (node_links w h data (x + y * w))"
      unfolding node_links_iff by simp
    from dm [OF s, of y] free [OF x y]
    show "x + y * w \<in> set (node_links w h data (Suc x + y * w))"
      unfolding node_links_iff by simp
  }
  {
    assume s: "Suc y < h"
    from dm [OF x, of y] free [OF x s] s
    show "x + Suc y * w \<in> set (node_links w h data (x + y * w))"
      unfolding node_links_iff by simp
    from dm [OF x, of "Suc y"] free [OF x y]
    show "x + y * w \<in> set (node_links w h data (x + Suc y * w))"
      unfolding node_links_iff by simp
  }
qed

lemma createNodes_links:
  "i < length data \<Longrightarrow> mn_nodes (createNodes w h data ! i) = node_links w h data i"
  by (simp add: createNodes_nth)

lemma link_step:
  assumes "i < length data" "j \<in> set (node_links w h data i)"
  shows "link_reach (createNodes w h data) i j"
proof -
  from assms have "j \<in> set (mn_nodes (createNodes w h data ! i))"
    by (simp only: createNodes_links)
  from link_reach_step [OF link_reach_refl this] show ?thesis .
qed

lemma free_row:
  assumes l: "length data = w * h" and z: "\<forall>k<length data. data ! k = 0" and y: "y < h"
  shows "x < w \<Longrightarrow> link_reach (createNodes w h data) (x + y * w) (y * w) \<and>
                   link_reach (createNodes w h data) (y * w) (x + y * w)"
proof (induction x)
  case 0
  then show ?case by (simp add: link_reach_refl)
next
  case (Suc x)
  let ?g = "createNodes w h data"
  from Suc.prems have x: "x < w" by simp
  note f = free_links [OF l z x y]
  from index_bound [OF x y] have b0: "x + y * w < length data" by (simp add: l)
  from index_bound [OF Suc.prems y] have b1: "Suc x + y * w < length data" by (simp add: l)
  have 1: "link_reach ?g (Suc x + y * w) (x + y * w)"
    by (rule link_step [OF b1 f(2) [OF Suc.prems]])
  have 2: "link_reach ?g (x + y * w) (Suc x + y * w)"
    by (rule link_step [OF b0 f(1) [OF Suc.prems]])
  from Suc.IH [OF x] 1 2 show ?case by (blast intro: link_reach_trans)
qed

lemma free_column:
  assumes l: "length data = w * h" and z: "\<forall>k<length data. data ! k = 0" and w: "0 < w"
  shows "y < h \<Longrightarrow> link_reach (createNodes w h data) (y * w) 0 \<and>
                   link_reach (createNodes w h data) 0 (y * w)"
proof (induction y)
  case 0
  then show ?case by (simp add: link_reach_refl)
next
  case (Suc y)
  let ?g = "createNodes w h data"
  from Suc.prems have y: "y < h" by simp
  note f = free_links [OF l z w y]
  from index_bound [OF w y] have b0: "y * w < length data" by (simp add: l)
  from index_bound [OF w Suc.prems] have b1: "Suc y * w < length data" by (simp add: l)
  have 1: "link_reach ?g (Suc y * w) (y * w)"
    using link_step [OF _ f(4) [OF Suc.prems]] b1 by simp
  have 2: "link_reach ?g (y * w) (Suc y * w)"
    using link_step [OF _ f(3) [OF Suc.prems]] b0 by simp
  from Suc.IH [OF y] 1 2 show ?case by (blast intro: link_reach_trans)
qed

lemma free_graph_connected:
  assumes w: "0 < w" and l: "length data = w * h" and z: "\<forall>k<length data. data ! k = 0"
    and i: "i < length data" and j: "j < length data"
  shows "link_reach (createNodes w h data) i j"
proof -
  let ?g = "createNodes w h data"
  have split: "\<And>k. k < length data \<Longrightarrow> k mod w < w \<and> k div w < h \<and> k = k mod w + (k div w) * w"
    using w unfolding l by (simp add: less_mult_imp_div_less mult.commute)
  have zero: "\<And>k. k < length data \<Longrightarrow> link_reach ?g k 0 \<and> link_reach ?g 0 k"
  proof -
    fix k assume k: "k < length data"
    from split [OF k] have x: "k mod w < w" and y: "k div w < h"
      and e: "k mod w + (k div w) * w = k" by simp_all
    from free_row [OF l z y x] free_column [OF l z w y] show "link_reach ?g k 0 \<and> link_reach ?g 0 k"
      unfolding e by (blast intro: link_reach_trans)
  qed
  from zero [OF i] zero [OF j] show ?thesis by (blast intro: link_reach_trans)
qed

subsection \<open>Auxiliary facts about the two searches on one graph\<close>

lemma cell_of_index: "px < w \<Longrightarrow> cell w (px + py * w) = (int px, int py)"
  by (simp add: cell_def)

lemma index_of_cell [simp]: "cell_index w (cell w i) = i"
  by (simp add: cell_def cell_index_def)

lemma cell_inj: "cell w i = cell w j \<Longrightarrow> i = j"
  by (metis index_of_cell)

lemma cell_cell_index:
  "0 \<le> fst p \<Longrightarrow> fst p < int w \<Longrightarrow> 0 \<le> snd p \<Longrightarrow> cell w (cell_index w p) = p"
  by (cases p) (simp add: cell_def cell_index_def)

lemma node_links_cells:
  assumes w: "0 < w" and j: "j \<in> set (node_links w h data i)"
  shows "(fst (cell w j) - fst (cell w i), snd (cell w j) - snd (cell w i)) \<in> set oddRowDirections"
    and "j < length data" and "data ! j = 0"
proof -
  let ?x = "i mod w" and ?y = "i div w"
  have xw: "?x < w" using w by simp
  from j [unfolded node_links_iff] consider
      "0 < ?x" "j = ?x - 1 + ?y * w" "j < length data" "data ! j = 0"
    | "?x + 1 < w" "j = ?x + 1 + ?y * w" "j < length data" "data ! j = 0"
    | "0 < ?y" "j = ?x + (?y - 1) * w" "j < length data" "data ! j = 0"
    | "0 < ?y" "?x + 1 < w" "j = ?x + 1 + (?y - 1) * w" "j < length data" "data ! j = 0"
    | "?y + 1 < h" "j = ?x + (?y + 1) * w" "j < length data" "data ! j = 0"
    | "?y + 1 < h" "?x + 1 < w" "j = ?x + 1 + (?y + 1) * w" "j < length data" "data ! j = 0"
    by (elim conjE disjE) blast+
  then have "cell w j \<in> {(int ?x - 1, int ?y), (int ?x + 1, int ?y), (int ?x, int ?y - 1),
       (int ?x + 1, int ?y - 1), (int ?x, int ?y + 1), (int ?x + 1, int ?y + 1)} \<and>
     j < length data \<and> data ! j = 0"
  proof cases
    case 1
    then have "?x - 1 < w" using xw by simp
    from cell_of_index [OF this, of ?y] 1 show ?thesis by (simp add: of_nat_diff)
  next
    case 2
    from cell_of_index [OF 2(1), of ?y] 2 show ?thesis by simp
  next
    case 3
    from cell_of_index [OF xw, of "?y - 1"] 3 show ?thesis by (simp add: of_nat_diff)
  next
    case 4
    from cell_of_index [OF 4(2), of "?y - 1"] 4 show ?thesis by (simp add: of_nat_diff)
  next
    case 5
    from cell_of_index [OF xw, of "?y + 1"] 5 show ?thesis by simp
  next
    case 6
    from cell_of_index [OF 6(2), of "?y + 1"] 6 show ?thesis by simp
  qed
  then show "(fst (cell w j) - fst (cell w i), snd (cell w j) - snd (cell w i)) \<in> set oddRowDirections"
    and "j < length data" and "data ! j = 0"
    by (elim conjE insertE emptyE; simp add: oddRowDirections_def cell_def)+
qed

lemma node_links_conv:
  assumes w: "0 < w" and j: "j < length data" "data ! j = 0"
    and d: "(fst (cell w j) - fst (cell w i), snd (cell w j) - snd (cell w i)) \<in> set oddRowDirections"
    and h: "snd (cell w j) < int h"
  shows "j \<in> set (node_links w h data i)"
proof -
  let ?x = "i mod w" and ?y = "i div w"
  let ?jx = "j mod w" and ?jy = "j div w"
  have jw: "?jx < w" using w by simp
  have jj: "j = ?jx + ?jy * w" by simp
  have jh: "?jy < h" using h by (simp add: cell_def)
  from d have "(int ?jx - int ?x, int ?jy - int ?y) \<in> {(0, -1), (1, -1), (1, 0), (1, 1), (0, 1), (-1, 0)}"
    by (simp add: cell_def oddRowDirections_def)
  then have "(?jx = ?x \<and> ?jy + 1 = ?y) \<or> (?jx = ?x + 1 \<and> ?jy + 1 = ?y) \<or>
      (?jx = ?x + 1 \<and> ?jy = ?y) \<or> (?jx = ?x + 1 \<and> ?jy = ?y + 1) \<or>
      (?jx = ?x \<and> ?jy = ?y + 1) \<or> (?jx + 1 = ?x \<and> ?jy = ?y)"
    by (elim insertE emptyE; simp; linarith)
  then consider "?jx = ?x" "?jy + 1 = ?y" | "?jx = ?x + 1" "?jy + 1 = ?y" | "?jx = ?x + 1" "?jy = ?y"
    | "?jx = ?x + 1" "?jy = ?y + 1" | "?jx = ?x" "?jy = ?y + 1" | "?jx + 1 = ?x" "?jy = ?y"
    by (elim conjE disjE) blast+
  then show ?thesis
  proof cases
    case 1
    then have "0 < ?y" "j = ?x + (?y - 1) * w" using jj by (simp, metis add_diff_cancel_right')
    with j show ?thesis unfolding node_links_iff by blast
  next
    case 2
    then have "0 < ?y" "?x + 1 < w" "j = ?x + 1 + (?y - 1) * w"
      using jj jw by (simp, simp, metis add_diff_cancel_right')
    with j show ?thesis unfolding node_links_iff by blast
  next
    case 3
    then have "?x + 1 < w" "j = ?x + 1 + ?y * w" using jj jw by (simp, metis)
    with j show ?thesis unfolding node_links_iff by blast
  next
    case 4
    then have "?y + 1 < h" "?x + 1 < w" "j = ?x + 1 + (?y + 1) * w"
      using jj jw jh by (simp, simp, metis)
    with j show ?thesis unfolding node_links_iff by blast
  next
    case 5
    then have "?y + 1 < h" "j = ?x + (?y + 1) * w" using jj jh by (simp, metis)
    with j show ?thesis unfolding node_links_iff by blast
  next
    case 6
    then have "0 < ?x" "j = ?x - 1 + ?y * w" using jj by (simp, metis add_diff_cancel_right')
    with j show ?thesis unfolding node_links_iff by blast
  qed
qed

lemma unit_dirs_cases:
  "d \<in> unit_dirs \<Longrightarrow> d = (1, 0) \<or> d = (-1, 0) \<or> d = (0, 1) \<or> d = (0, -1)"
  by (simp add: unit_dirs_def)

lemma same_direction:
  assumes "diff q p \<in> unit_dirs" "diff r q \<in> unit_dirs" "p \<noteq> r" "diff r p \<notin> diag_dirs"
  shows "diff r q = diff q p"
proof -
  have s: "diff r p = (fst (diff r q) + fst (diff q p), snd (diff r q) + snd (diff q p))"
    by (simp add: diff_def)
  have z: "diff r p \<noteq> (0, 0)" using assms(3) by (auto simp: diff_def prod_eq_iff)
  from unit_dirs_cases [OF assms(1)] unit_dirs_cases [OF assms(2)] show ?thesis
    using assms(4) z unfolding s
    by (elim disjE) (simp_all add: diag_dirs_def)
qed

lemma straight_tail:
  "unit_walk (p # q # rest) \<Longrightarrow> no_backtrack (p # q # rest) \<Longrightarrow>
   (\<forall>u\<in>set (p # q # rest). \<forall>v\<in>set (p # q # rest). diff v u \<notin> diag_dirs) \<Longrightarrow>
   last (q # rest) = (fst q + int (length rest) * fst (diff q p), snd q + int (length rest) * snd (diff q p))"
proof (induction rest arbitrary: p q)
  case Nil
  then show ?case by simp
next
  case (Cons r rest)
  from Cons.prems(1) have u: "diff q p \<in> unit_dirs" "diff r q \<in> unit_dirs" "unit_walk (q # r # rest)"
    by simp_all
  from Cons.prems(2) have nb: "p \<noteq> r" "no_backtrack (q # r # rest)" by simp_all
  from Cons.prems(3) have nd: "diff r p \<notin> diag_dirs"
    "\<forall>u\<in>set (q # r # rest). \<forall>v\<in>set (q # r # rest). diff v u \<notin> diag_dirs" by simp_all
  have d: "diff r q = diff q p" by (rule same_direction [OF u(1,2) nb(1) nd(1)])
  from Cons.IH [OF u(3) nb(2) nd(2)]
  have "last (r # rest) = (fst r + int (length rest) * fst (diff r q), snd r + int (length rest) * snd (diff r q))" .
  moreover have "fst r = fst q + fst (diff q p)" "snd r = snd q + snd (diff q p)"
    using d by (simp_all add: diff_def prod_eq_iff)
  ultimately show ?case by (simp add: d algebra_simps)
qed

lemma straight_walk:
  assumes "unit_walk cs" "no_backtrack cs" "cs \<noteq> []"
    and "\<forall>u\<in>set cs. \<forall>v\<in>set cs. diff v u \<notin> diag_dirs"
  shows "\<bar>fst (last cs) - fst (hd cs)\<bar> + \<bar>snd (last cs) - snd (hd cs)\<bar> = int (length cs) - 1"
proof (cases cs)
  case Nil
  with assms(3) show ?thesis by simp
next
  case (Cons p cs')
  show ?thesis
  proof (cases cs')
    case Nil
    with Cons show ?thesis by simp
  next
    case (Cons q rest)
    with \<open>cs = p # cs'\<close> have cs: "cs = p # q # rest" by simp
    from assms(1) have u: "diff q p \<in> unit_dirs" by (simp add: cs)
    let ?dx = "fst (diff q p)" and ?dy = "snd (diff q p)"
    from straight_tail [OF assms(1,2,4) [unfolded cs]]
    have l: "last (q # rest) = (fst q + int (length rest) * ?dx, snd q + int (length rest) * ?dy)" .
    have q: "fst q = fst p + ?dx" "snd q = snd p + ?dy" by (simp_all add: diff_def)
    have lc: "last cs = last (q # rest)" "hd cs = p" "int (length cs) - 1 = int (length rest) + 1"
      by (simp_all add: cs)
    have fx: "fst (last cs) - fst (hd cs) = (int (length rest) + 1) * ?dx"
      unfolding lc l using q(1) by (simp add: algebra_simps)
    have fy: "snd (last cs) - snd (hd cs) = (int (length rest) + 1) * ?dy"
      unfolding lc l using q(2) by (simp add: algebra_simps)
    from unit_dirs_cases [OF u] show ?thesis
      unfolding fx fy lc(3) by (elim disjE) simp_all
  qed
qed

lemma js_rem_even: "js_rem m 2 = 0 \<longleftrightarrow> even m"
  by (auto simp: js_rem_def sgn_if)

lemma odd_dirs: "d \<in> set oddRowDirections \<longleftrightarrow> d \<in> unit_dirs \<or> d = (1, -1) \<or> d = (1, 1)"
  by (auto simp: oddRowDirections_def unit_dirs_def)

lemma even_dirs: "d \<in> set evenRowDirections \<longleftrightarrow> d \<in> unit_dirs \<or> d = (-1, -1) \<or> d = (-1, 1)"
  by (auto simp: evenRowDirections_def unit_dirs_def)

lemma diag_dirs_cases: "d \<in> diag_dirs \<longleftrightarrow> d = (1, 1) \<or> d = (1, -1) \<or> d = (-1, 1) \<or> d = (-1, -1)"
  by (simp add: diag_dirs_def)

lemma unit_not_diag: "d \<in> unit_dirs \<Longrightarrow> d \<notin> diag_dirs"
  by (auto simp: unit_dirs_def diag_dirs_def)

lemma cell_bounds:
  assumes "same_cells a data" "i < length data"
  shows "isValidCoordinate a (fst (cell (nat (mapSize a)) i)) (snd (cell (nat (mapSize a)) i))"
proof -
  let ?n = "nat (mapSize a)"
  from assms have n: "0 < ?n" and i: "i < ?n * ?n" by (simp_all add: same_cells_def)
  from assms have m: "int ?n = mapSize a" by (simp add: same_cells_def)
  from i have "i div ?n < ?n" by (simp add: less_mult_imp_div_less)
  then have 1: "int (i div ?n) < int ?n" by (simp only: of_nat_less_iff)
  have "i mod ?n < ?n" using n by simp
  then have 2: "int (i mod ?n) < int ?n" by (simp only: of_nat_less_iff)
  from 1 2 show ?thesis unfolding m isValidCoordinate_def cell_def fst_conv snd_conv by simp
qed

lemma cell_passable:
  assumes "same_cells a data" "i < length data"
  shows "isValidPosition a (fst (cell (nat (mapSize a)) i)) (snd (cell (nat (mapSize a)) i)) \<longleftrightarrow> data ! i = 0"
  using assms cell_bounds [OF assms] by (simp add: isValidPosition_def same_cells_def)

lemma valid_cell_index:
  assumes sc: "same_cells a data" and v: "isValidCoordinate a (fst p) (snd p)"
  shows "cell_index (nat (mapSize a)) p < length data" "cell (nat (mapSize a)) (cell_index (nat (mapSize a)) p) = p"
proof -
  let ?n = "nat (mapSize a)"
  from sc have n: "0 < ?n" and l: "length data = ?n * ?n" by (simp_all add: same_cells_def)
  from v have b: "0 \<le> fst p" "fst p < int ?n" "0 \<le> snd p" "snd p < int ?n"
    by (simp_all add: isValidCoordinate_def)
  show "cell ?n (cell_index ?n p) = p" by (rule cell_cell_index [OF b(1,2,3)])
  from b have x: "nat (fst p) < ?n" and y: "nat (snd p) + 1 \<le> ?n" by linarith+
  from y have "(nat (snd p) + 1) * ?n \<le> ?n * ?n" by (rule mult_le_mono1)
  then have "nat (snd p) * ?n + ?n \<le> ?n * ?n" by (simp only: add_mult_distrib mult_1)
  with x have "nat (fst p) + nat (snd p) * ?n < ?n * ?n" by linarith
  then show "cell_index ?n p < length data" unfolding cell_index_def l .
qed

lemma link_to_hex:
  assumes "same_links a data" "i < length data" "data ! i = 0"
    and "j \<in> set (node_links (nat (mapSize a)) (nat (mapSize a)) data i)"
  shows "cell (nat (mapSize a)) j \<in> set (neighbor_keys a (cell (nat (mapSize a)) i))"
proof -
  from assms(4) have "cell (nat (mapSize a)) j \<in>
      set (map (cell (nat (mapSize a))) (node_links (nat (mapSize a)) (nat (mapSize a)) data i))"
    by simp
  with assms(1-3) show ?thesis unfolding same_links_def by blast
qed

lemma hex_to_link:
  assumes "same_links a data" "i < length data" "data ! i = 0"
    and "q \<in> set (neighbor_keys a (cell (nat (mapSize a)) i))"
  shows "\<exists>j\<in>set (node_links (nat (mapSize a)) (nat (mapSize a)) data i). cell (nat (mapSize a)) j = q"
proof -
  from assms have "q \<in> set (map (cell (nat (mapSize a))) (node_links (nat (mapSize a)) (nat (mapSize a)) data i))"
    unfolding same_links_def by blast
  then show ?thesis by auto
qed

lemma no_diag_even:
  assumes sc: "same_cells a data" and sl: "same_links a data"
    and i: "i < length data" "data ! i = 0" and j: "j < length data" "data ! j = 0"
    and ev: "even (snd (cell (nat (mapSize a)) i))"
  shows "diff (cell (nat (mapSize a)) j) (cell (nat (mapSize a)) i) \<notin> diag_dirs"
proof
  let ?n = "nat (mapSize a)"
  let ?d = "diff (cell ?n j) (cell ?n i)"
  assume d: "?d \<in> diag_dirs"
  from sc have n: "0 < ?n" by (simp add: same_cells_def)
  have dd: "?d = (fst (cell ?n j) - fst (cell ?n i), snd (cell ?n j) - snd (cell ?n i))"
    by (simp add: diff_def)
  have row: "\<not> js_rem (snd (cell ?n i)) 2 \<noteq> 0" using ev by (simp add: js_rem_even)
  from d consider "?d = (1, 1) \<or> ?d = (1, -1)" | "?d = (-1, 1) \<or> ?d = (-1, -1)"
    unfolding diag_dirs_cases by blast
  then show False
  proof cases
    case 1
    then have o: "?d \<in> set oddRowDirections" unfolding odd_dirs by blast
    from cell_bounds [OF sc j(1)] have "snd (cell ?n j) < int ?n"
      by (simp add: isValidCoordinate_def)
    from node_links_conv [OF n j o [unfolded dd] this]
    have "j \<in> set (node_links ?n ?n data i)" .
    from link_to_hex [OF sl i this] have "?d \<in> set evenRowDirections"
      unfolding neighbor_keys_iff dd using row by simp
    with 1 show False unfolding even_dirs by (auto simp: unit_dirs_def)
  next
    case 2
    then have e: "?d \<in> set evenRowDirections" unfolding even_dirs by blast
    have "isValidPosition a (fst (cell ?n j)) (snd (cell ?n j))"
      using cell_passable [OF sc j(1)] j(2) by simp
    with e have "cell ?n j \<in> set (neighbor_keys a (cell ?n i))"
      unfolding neighbor_keys_iff dd using row by simp
    from hex_to_link [OF sl i this] obtain j' where
      j': "j' \<in> set (node_links ?n ?n data i)" "cell ?n j' = cell ?n j" by blast
    from cell_inj [OF j'(2)] j'(1) have "j \<in> set (node_links ?n ?n data i)" by simp
    from node_links_cells(1) [OF n this] have "?d \<in> set oddRowDirections" by (simp add: diff_def)
    with 2 show False unfolding odd_dirs by (auto simp: unit_dirs_def)
  qed
qed

lemma diag_swap: "diff q p \<in> diag_dirs \<Longrightarrow> diff p q \<in> diag_dirs"
proof -
  assume "diff q p \<in> diag_dirs"
  moreover have "diff p q = (- fst (diff q p), - snd (diff q p))" by (simp add: diff_def)
  ultimately show ?thesis unfolding diag_dirs_cases by (elim disjE) simp_all
qed

lemma diag_parity: "diff q p \<in> diag_dirs \<Longrightarrow> even (snd p) \<or> even (snd q)"
proof -
  assume "diff q p \<in> diag_dirs"
  then have "snd q = snd p + 1 \<or> snd q = snd p - 1"
    unfolding diag_dirs_cases by (auto simp: diff_def)
  then show ?thesis by auto
qed

lemma no_diag:
  assumes sc: "same_cells a data" and sl: "same_links a data"
    and i: "i < length data" "data ! i = 0" and j: "j < length data" "data ! j = 0"
  shows "diff (cell (nat (mapSize a)) j) (cell (nat (mapSize a)) i) \<notin> diag_dirs"
proof
  let ?n = "nat (mapSize a)"
  assume d: "diff (cell ?n j) (cell ?n i) \<in> diag_dirs"
  from diag_parity [OF d] show False
  proof
    assume "even (snd (cell ?n i))"
    from no_diag_even [OF sc sl i j this] d show False by simp
  next
    assume "even (snd (cell ?n j))"
    from no_diag_even [OF sc sl j i this] diag_swap [OF d] show False by simp
  qed
qed

lemma link_unit:
  assumes sc: "same_cells a data" and sl: "same_links a data"
    and i: "i < length data" "data ! i = 0"
    and j: "j \<in> set (node_links (nat (mapSize a)) (nat (mapSize a)) data i)"
  shows "j < length data" "data ! j = 0"
    and "diff (cell (nat (mapSize a)) j) (cell (nat (mapSize a)) i) \<in> unit_dirs"
proof -
  let ?n = "nat (mapSize a)"
  from sc have n: "0 < ?n" by (simp add: same_cells_def)
  note c = node_links_cells [OF n j]
  show jl: "j < length data" and j0: "data ! j = 0" by (rule c(2), rule c(3))
  from c(1) have "diff (cell ?n j) (cell ?n i) \<in> set oddRowDirections" by (simp add: diff_def)
  moreover from no_diag [OF sc sl i jl j0] have "diff (cell ?n j) (cell ?n i) \<notin> diag_dirs" .
  ultimately show "diff (cell ?n j) (cell ?n i) \<in> unit_dirs"
    unfolding odd_dirs diag_dirs_cases by blast
qed

lemma store_inv_key_new:
  assumes inv: "search_inv a start s" and st: "store_inv s"
    and k: "k \<notin> closedSet s" "openSet s k = None"
  shows "k \<notin> set (map node_key (nodes s))"
proof
  assume "k \<in> set (map node_key (nodes s))"
  then obtain r where r: "r < length (nodes s)" "node_key (nodes s ! r) = k"
    by (auto simp: in_set_conv_nth)
  from st r(1) have "r \<in> set (openList s) \<or> node_key (nodes s ! r) \<in> closedSet s"
    by (simp add: store_inv_def)
  then show False
  proof
    assume "r \<in> set (openList s)"
    with inv r(2) have "openSet s k = Some r" unfolding search_inv_def by blast
    with k(2) show False by simp
  next
    assume "node_key (nodes s ! r) \<in> closedSet s"
    with r(2) k(1) show False by simp
  qed
qed

lemma visitNeighbor_store_inv:
  assumes inv: "search_inv a start s" and st: "store_inv s"
  shows "store_inv (visitNeighbor e cur s nb)"
proof (cases rule: visitNeighbor_cases [of nb s e cur])
  case closed
  with st show ?thesis by simp
next
  case new
  let ?n = "nb\<lparr>node_g := node_g (nodes s ! cur) + 1,
                 node_h := calculateHeuristic e (node_x nb) (node_y nb),
                 node_f := of_int (node_g (nodes s ! cur) + 1) + calculateHeuristic e (node_x nb) (node_y nb),
                 node_parent := Some cur\<rparr>"
  from store_inv_key_new [OF inv st new(1,2)] have nk: "node_key nb \<notin> set (map node_key (nodes s))" .
  have kn: "node_key ?n = node_key nb" by simp
  from st have d: "distinct (map node_key (nodes s))"
    and o: "\<And>r. r < length (nodes s) \<Longrightarrow> r \<in> set (openList s) \<or> node_key (nodes s ! r) \<in> closedSet s"
    by (simp_all add: store_inv_def)
  have 1: "distinct (map node_key (nodes s @ [?n]))"
    using d nk unfolding map_append distinct_append list.map kn by simp
  have 2: "\<forall>r<length (nodes s @ [?n]). r \<in> set (openList s @ [length (nodes s)]) \<or>
             node_key ((nodes s @ [?n]) ! r) \<in> closedSet s"
  proof (intro allI impI)
    fix r assume "r < length (nodes s @ [?n])"
    then consider "r < length (nodes s)" | "r = length (nodes s)" by fastforce
    then show "r \<in> set (openList s @ [length (nodes s)]) \<or>
             node_key ((nodes s @ [?n]) ! r) \<in> closedSet s"
    proof cases
      case 1
      with o [OF 1] show ?thesis by (auto simp: nth_append)
    next
      case 2
      then show ?thesis by simp
    qed
  qed
  from 1 2 show ?thesis unfolding new(3) store_inv_def by simp
next
  case (improve ex)
  let ?n = "(nodes s ! ex)\<lparr>node_g := node_g (nodes s ! cur) + 1,
                 node_f := of_int (node_g (nodes s ! cur) + 1) + node_h (nodes s ! ex),
                 node_parent := Some cur\<rparr>"
  have kn: "node_key ?n = node_key (nodes s ! ex)" by simp
  have key: "\<And>r. r < length (nodes s) \<Longrightarrow> node_key ((nodes s)[ex := ?n] ! r) = node_key (nodes s ! r)"
  proof -
    fix r assume r: "r < length (nodes s)"
    show "node_key ((nodes s)[ex := ?n] ! r) = node_key (nodes s ! r)"
    proof (cases "ex = r")
      case True
      from r have "(nodes s)[r := ?n] ! r = ?n" by (rule nth_list_update_eq)
      with kn True show ?thesis by (simp only:)
    next
      case False
      then have "(nodes s)[ex := ?n] ! r = nodes s ! r" by (rule nth_list_update_neq)
      then show ?thesis by (simp only:)
    qed
  qed
  have keys: "map node_key ((nodes s)[ex := ?n]) = map node_key (nodes s)"
  proof (rule nth_equalityI)
    show "length (map node_key ((nodes s)[ex := ?n])) = length (map node_key (nodes s))" by simp
  next
    fix i assume "i < length (map node_key ((nodes s)[ex := ?n]))"
    then have i: "i < length (nodes s)" by simp
    then have i': "i < length ((nodes s)[ex := ?n])" by simp
    show "map node_key ((nodes s)[ex := ?n]) ! i = map node_key (nodes s) ! i"
      using key [OF i] by (simp only: nth_map [OF i] nth_map [OF i'])
  qed
  from st have d: "distinct (map node_key (nodes s))"
    and o: "\<And>r. r < length (nodes s) \<Longrightarrow> r \<in> set (openList s) \<or> node_key (nodes s ! r) \<in> closedSet s"
    by (simp_all add: store_inv_def)
  have 1: "distinct (map node_key ((nodes s)[ex := ?n]))" using d by (simp only: keys)
  have 2: "\<forall>r<length ((nodes s)[ex := ?n]). r \<in> set (openList s) \<or>
             node_key ((nodes s)[ex := ?n] ! r) \<in> closedSet s"
    using o key by simp
  from 1 2 show ?thesis unfolding improve(4) store_inv_def by simp
next
  case (keep ex)
  with st show ?thesis by simp
qed

lemma fold_visit_store_inv:
  assumes "search_inv a start s"
    and "cur < length (nodes s)" "cur \<notin> set (openList s)"
    and "\<forall>nb\<in>set nbs. isValidPosition a (node_x nb) (node_y nb) \<and>
           node_key nb \<in> set (neighbor_keys a (node_key (nodes s ! cur)))"
    and "store_inv s"
  shows "store_inv (foldl (visitNeighbor e cur) s nbs)"
  using assms
proof (induction nbs arbitrary: s)
  case Nil
  then show ?case by simp
next
  case (Cons nb nbs)
  let ?s1 = "visitNeighbor e cur s nb"
  from Cons.prems have nb: "isValidPosition a (node_x nb) (node_y nb)"
    "node_key nb \<in> set (neighbor_keys a (node_key (nodes s ! cur)))" by simp_all
  note v = visitNeighbor_inv [OF Cons.prems(1-3) nb, of e]
  from v(2) have c1: "cur < length (nodes ?s1)" "cur \<notin> set (openList ?s1)"
    and same: "nodes ?s1 ! cur = nodes s ! cur" by (simp_all add: visit_rel_def)
  have rest: "\<forall>nb\<in>set nbs. isValidPosition a (node_x nb) (node_y nb) \<and>
           node_key nb \<in> set (neighbor_keys a (node_key (nodes ?s1 ! cur)))"
    using Cons.prems(4) by (simp add: same)
  have st1: "store_inv ?s1" by (rule visitNeighbor_store_inv [OF Cons.prems(1,5)])
  from Cons.IH [OF v(1) c1 rest st1] show ?case by simp
qed

lemma expand_store_inv:
  assumes inv: "search_inv a start s" and cur: "cur \<in> set (openList s)" and st: "store_inv s"
  shows "store_inv (expand a e cur s)"
proof -
  let ?ck = "node_key (nodes s ! cur)"
  let ?s1 = "s\<lparr>openList := remove1 cur (openList s),
              openSet := (openSet s)(?ck := None),
              closedSet := insert ?ck (closedSet s)\<rparr>"
  let ?nbs = "getNeighbors a (nodes s ! cur)"
  from inv have dist: "distinct (open_keys s)"
    and op: "\<And>r. r \<in> set (openList s) \<Longrightarrow> r < length (nodes s) \<and> node_key (nodes s ! r) \<notin> closedSet s"
    unfolding search_inv_def by blast+
  have rm: "removeFromOpenList (nodes s) (openList s) cur = remove1 cur (openList s)"
    using dist cur by (intro removeFromOpenList_remove1) (simp_all add: open_keys_def)
  have ex: "expand a e cur s = foldl (visitNeighbor e cur) ?s1 ?nbs"
    by (simp add: expand_def Let_def rm node_key_def)
  have inv1: "search_inv a start ?s1" by (rule search_inv_close [OF inv cur])
  from dist have d: "distinct (openList s)" by (simp add: open_keys_def distinct_map)
  then have c1: "cur < length (nodes ?s1)" "cur \<notin> set (openList ?s1)"
    using op [OF cur] by simp_all
  have nbs: "\<forall>nb\<in>set ?nbs. isValidPosition a (node_x nb) (node_y nb) \<and>
           node_key nb \<in> set (neighbor_keys a (node_key (nodes ?s1 ! cur)))"
    using getNeighbors_member(2,3) by simp
  from st have sd: "distinct (map node_key (nodes s))"
    and o: "\<And>r. r < length (nodes s) \<Longrightarrow> r \<in> set (openList s) \<or> node_key (nodes s ! r) \<in> closedSet s"
    by (simp_all add: store_inv_def)
  have st1: "store_inv ?s1"
    unfolding store_inv_def
  proof (intro conjI allI impI)
    show "distinct (map node_key (nodes ?s1))" using sd by simp
  next
    fix r assume "r < length (nodes ?s1)"
    then have r: "r < length (nodes s)" by simp
    show "r \<in> set (openList ?s1) \<or> node_key (nodes ?s1 ! r) \<in> closedSet ?s1"
    proof (cases "r = cur")
      case True
      then show ?thesis by simp
    next
      case False
      with o [OF r] d show ?thesis by auto
    qed
  qed
  show ?thesis unfolding ex by (rule fold_visit_store_inv [OF inv1 c1 nbs st1])
qed

lemma loop_body_store_inv:
  assumes inv: "search_inv a start s" and st: "store_inv s" and lb: "loop_body a e s = Inr s'"
  shows "store_inv s'"
proof -
  from inv lb obtain cur where cur: "cur \<in> set (openList s)" and s': "s' = expand a e cur s"
    by (cases rule: loop_body_cases [of a start s e]) auto
  show ?thesis unfolding s' by (rule expand_store_inv [OF inv cur st])
qed

lemma expansions_store_inv:
  assumes "search_inv a start s" "frontier_inv a start e s" "store_inv s"
    "expansions n a e s = Some s'"
  shows "store_inv s'"
  using assms
proof (induction n arbitrary: s)
  case 0
  then show ?case by simp
next
  case (Suc n)
  from Suc.prems(4) obtain s1 where s1: "loop_body a e s = Inr s1" "expansions n a e s1 = Some s'"
    by (auto split: sum.splits)
  note stp = loop_body_step [OF Suc.prems(1,2) s1(1)]
  from Suc.IH [OF stp(1,2) loop_body_store_inv [OF Suc.prems(1,3) s1(1)] s1(2)] show ?case .
qed

lemma store_inv_initial: "store_inv (initial_search start e)"
  by (simp add: store_inv_def initial_search_def Let_def)

lemma buildPath_from_distinct:
  assumes inv: "search_inv a start s" and st: "store_inv s"
  shows "r < length (nodes s) \<Longrightarrow>
     \<exists>p. buildPath_from (nodes s) (Some r) acc = Some (p @ acc) \<and>
         distinct (map node_key p) \<and>
         (\<forall>n\<in>set p. n \<in> set (nodes s) \<and> node_g n \<le> node_g (nodes s ! r))"
proof (induction "nat (node_g (nodes s ! r))" arbitrary: r acc rule: less_induct)
  case less
  let ?st = "nodes s"
  from inv less.prems have wf: "wf_node a start s r" by (simp add: search_inv_def)
  have unf: "buildPath_from ?st (Some r) acc = buildPath_from ?st (node_parent (?st ! r)) ((?st ! r) # acc)"
    by (subst buildPath_from.simps) simp
  have mem: "?st ! r \<in> set ?st" using less.prems by simp
  show ?case
  proof (cases "node_parent (?st ! r)")
    case None
    then have "buildPath_from ?st (Some r) acc = Some ([?st ! r] @ acc)"
      unfolding unf by (subst buildPath_from.simps) simp
    then show ?thesis using mem by (intro exI [of _ "[?st ! r]"]) simp
  next
    case (Some q)
    with wf have q: "q < length ?st" and g: "node_g (?st ! r) = node_g (?st ! q) + 1"
      by (simp_all add: wf_node_def)
    from inv q have "wf_node a start s q" by (simp add: search_inv_def)
    then have "0 \<le> node_g (?st ! q)" by (simp add: wf_node_def)
    with g have "nat (node_g (?st ! q)) < nat (node_g (?st ! r))" by simp
    from less.hyps [OF this q, of "(?st ! r) # acc"] obtain p where
      p: "buildPath_from ?st (Some q) ((?st ! r) # acc) = Some (p @ (?st ! r) # acc)"
        "distinct (map node_key p)"
        "\<forall>n\<in>set p. n \<in> set ?st \<and> node_g n \<le> node_g (?st ! q)"
      by blast
    from st have inj: "inj_on node_key (set ?st)" by (simp add: store_inv_def distinct_map)
    have nk: "node_key (?st ! r) \<notin> node_key ` set p"
    proof
      assume "node_key (?st ! r) \<in> node_key ` set p"
      then obtain n where n: "n \<in> set p" "node_key n = node_key (?st ! r)" by auto
      with p(3) have n2: "n \<in> set ?st" "node_g n \<le> node_g (?st ! q)" by blast+
      from inj_onD [OF inj n(2) n2(1) mem] have "n = ?st ! r" .
      with n2(2) g show False by simp
    qed
    have 1: "buildPath_from ?st (Some r) acc = Some ((p @ [?st ! r]) @ acc)"
      unfolding unf Some using p(1) by simp
    have 2: "distinct (map node_key (p @ [?st ! r]))" using p(2) nk by simp
    have 3: "\<forall>n\<in>set (p @ [?st ! r]). n \<in> set ?st \<and> node_g n \<le> node_g (?st ! r)"
      using p(3) g mem by auto
    from 1 2 3 show ?thesis by blast
  qed
qed

lemma findPath_path_distinct:
  assumes v: "valid_input a start e" and p: "fst (findPath a start e) = Some (Inr (Some p))"
  shows "distinct (map node_key p)"
proof -
  let ?a = "a\<lparr>endPos := Some e\<rparr>"
  from v have v': "valid_input ?a start e" by simp
  note i0 = search_inv_initial [OF v']
  from search_run [OF v] p obtain n sf r where
    run: "expansions n ?a e (initial_search start e) = Some sf"
    and inv: "search_inv ?a start sf"
    and r: "r \<in> set (openList sf)"
    and bp: "buildPath (nodes sf) r = Some p"
    by auto
  have st: "store_inv sf"
    by (rule expansions_store_inv [OF i0(1,2) store_inv_initial run])
  from inv r have "r < length (nodes sf)" by (simp add: search_inv_def)
  from buildPath_from_distinct [OF inv st this, of "[]"] bp show ?thesis
    by (auto simp: buildPath_def)
qed

lemma distinct_no_backtrack: "distinct cs \<Longrightarrow> no_backtrack cs"
  by (induction cs rule: no_backtrack.induct) simp_all

lemma no_diag_pos:
  assumes sc: "same_cells a data" and sl: "same_links a data"
    and p: "isValidPosition a (fst p) (snd p)" and q: "isValidPosition a (fst q) (snd q)"
  shows "diff q p \<notin> diag_dirs"
proof -
  let ?n = "nat (mapSize a)"
  from p q have vp: "isValidCoordinate a (fst p) (snd p)" and vq: "isValidCoordinate a (fst q) (snd q)"
    by (simp_all add: isValidPosition_def)
  note ip = valid_cell_index [OF sc vp] and iq = valid_cell_index [OF sc vq]
  from cell_passable [OF sc ip(1)] p have p0: "data ! cell_index ?n p = 0" by (simp add: ip(2))
  from cell_passable [OF sc iq(1)] q have q0: "data ! cell_index ?n q = 0" by (simp add: iq(2))
  from no_diag [OF sc sl ip(1) p0 iq(1) q0] show ?thesis by (simp add: ip(2) iq(2))
qed

lemma hex_unit:
  assumes sc: "same_cells a data" and sl: "same_links a data"
    and p: "isValidPosition a (fst p) (snd p)" and q: "q \<in> set (neighbor_keys a p)"
  shows "diff q p \<in> unit_dirs"
proof -
  from q have v: "isValidPosition a (fst q) (snd q)"
    and d: "diff q p \<in> set oddRowDirections \<or> diff q p \<in> set evenRowDirections"
    unfolding neighbor_keys_iff diff_def by (simp_all split: if_splits)
  from no_diag_pos [OF sc sl p v] d show ?thesis
    unfolding odd_dirs even_dirs diag_dirs_cases by blast
qed

lemma hex_path_unit_walk:
  assumes sc: "same_cells a data" and sl: "same_links a data"
  shows "hex_path a cs \<Longrightarrow> (\<forall>c\<in>set cs. isValidPosition a (fst c) (snd c)) \<Longrightarrow> unit_walk cs"
proof (induction cs rule: unit_walk.induct)
  case (1 p q rest)
  from 1(2) have a: "q \<in> set (neighbor_keys a p)" "hex_path a (q # rest)" by simp_all
  from 1(3) have v: "isValidPosition a (fst p) (snd p)"
    "\<forall>c\<in>set (q # rest). isValidPosition a (fst c) (snd c)" by simp_all
  from hex_unit [OF sc sl v(1) a(1)] 1(1) [OF a(2) v(2)] show ?case by simp
qed simp_all

lemma findPath_length:
  assumes v: "valid_input a start e" and sc: "same_cells a data" and sl: "same_links a data"
    and p: "fst (findPath a start e) = Some (Inr (Some p))"
  shows "\<bar>fst e - fst start\<bar> + \<bar>snd e - snd start\<bar> = int (length p) - 1"
proof -
  let ?cs = "map node_key p"
  from findPath_path_facts [OF p] have f: "p \<noteq> []" "node_key (hd p) = start" "node_key (last p) = e"
    "hex_path a ?cs" "\<forall>n\<in>set p. isValidCoordinate a (node_x n) (node_y n) \<and> node_key n \<notin> obstacles a"
    by simp_all
  from f(5) have val: "\<forall>c\<in>set ?cs. isValidPosition a (fst c) (snd c)"
    by (simp add: isValidPosition_def node_key_def)
  have uw: "unit_walk ?cs" by (rule hex_path_unit_walk [OF sc sl f(4) val])
  have nb: "no_backtrack ?cs" by (rule distinct_no_backtrack [OF findPath_path_distinct [OF v p]])
  have nd: "\<forall>u\<in>set ?cs. \<forall>v\<in>set ?cs. diff v u \<notin> diag_dirs"
    using val no_diag_pos [OF sc sl] by blast
  from f(1) have ne: "?cs \<noteq> []" by simp
  from straight_walk [OF uw nb ne nd] f(1-3) show ?thesis
    by (simp add: hd_map last_map)
qed

lemma unit_step_cases:
  assumes "\<bar>x' - x\<bar> + \<bar>y' - y\<bar> = (1::int)"
  shows "(x' = x + 1 \<and> y' = y) \<or> (x' = x - 1 \<and> y' = y) \<or>
         (x' = x \<and> y' = y + 1) \<or> (x' = x \<and> y' = y - 1)"
  using assms by (auto simp: abs_if split: if_splits)

lemma unit_step_cost:
  assumes "\<bar>x' - x\<bar> + \<bar>y' - y\<bar> = (1::int)"
  shows "get_cost x' y' ex ey = get_cost x y ex ey + 1 \<or> get_cost x' y' ex ey = get_cost x y ex ey - 1"
  using unit_step_cases [OF assms] unfolding get_cost_def
  by (elim disjE conjE) (simp_all, linarith+)

lemma mark_f:
  assumes sh: "inv_shape tok start st0 s" and f: "inv_f ex ey s"
    and i: "i < length st0" "mn_token (store s ! i) \<noteq> tok"
    and k: "k < 4"
    and kk: "get_cost (mn_x (store s ! i)) (mn_y (store s ! i)) ex ey
               + (mn_cost (store s ! cur) + 1) - base_cost s = int k"
  shows "inv_f ex ey (mark tok cur i k s)"
  unfolding inv_f_def
proof (intro allI impI ballI)
  fix k' n assume k': "k' < (4::nat)" and n: "n \<in> set (opens (mark tok cur i k s) ! k')"
  note d = inv_shapeD [OF sh]
  have iL: "i < length (store s)" using i(1) d(2) by simp
  have o: "opens (mark tok cur i k s) = (opens s)[k := opens s ! k @ [i]]" by (simp add: mark_def)
  have b: "base_cost (mark tok cur i k s) = base_cost s" by simp
  from n have "(n = i \<and> k' = k) \<or> n \<in> set (opens s ! k')"
    unfolding o using k k' d(1) by (cases "k' = k") auto
  then show "bucket_index ex ey (mark tok cur i k s) n = int k'"
  proof
    assume a: "n = i \<and> k' = k"
    have "store (mark tok cur i k s) ! i =
        (store s ! i)\<lparr>mn_token := tok, mn_cost := mn_cost (store s ! cur) + 1, mn_prev := Some cur\<rparr>"
      using store_mark [OF iL iL] by simp
    then show ?thesis unfolding bucket_index_def b using a kk by simp
  next
    assume a: "n \<in> set (opens s ! k')"
    with k' d(1) have ib: "in_bucket s n" unfolding in_bucket_def by (metis nth_mem)
    from d(8) [OF ib] d(9) [OF ib] i(2) have nL: "n < length (store s)" and ne: "n \<noteq> i"
      using d(2) by auto
    have "store (mark tok cur i k s) ! n = store s ! n"
      using store_mark [OF iL nL] ne by simp
    moreover from f k' a have "bucket_index ex ey s n = int k'" unfolding inv_f_def by blast
    ultimately show ?thesis unfolding bucket_index_def b by simp
  qed
qed

lemma visit_links_unit:
  assumes g: "graph_ok st0" and fr: "fresh tok st0"
    and un: "\<forall>j\<in>set (mn_nodes (st0 ! cur)).
               \<bar>mn_x (st0 ! j) - mn_x (st0 ! cur)\<bar> + \<bar>mn_y (st0 ! j) - mn_y (st0 ! cur)\<bar> = 1"
  shows "bucket_inv tok start st0 X s \<Longrightarrow> inv_f ex ey s \<Longrightarrow> cur \<in> set (searched s) \<Longrightarrow>
     set ls \<subseteq> set (mn_nodes (st0 ! cur)) \<Longrightarrow> bucket_index ex ey s cur = 0 \<Longrightarrow>
     \<exists>s'. visit_links tok ex ey cur ls s = Inr s' \<and> inv_f ex ey s'"
proof (induction ls arbitrary: s)
  case Nil
  then show ?case by simp
next
  case (Cons i rest)
  from Cons.prems(1) have sh: "inv_shape tok start st0 s" by (simp add: bucket_inv_def)
  note d = inv_shapeD [OF sh]
  from Cons.prems(4) have il: "i \<in> set (mn_nodes (st0 ! cur))"
    and rl: "set rest \<subseteq> set (mn_nodes (st0 ! cur))" by simp_all
  have curL: "cur < length st0" by (rule d(10) [OF Cons.prems(3)])
  from g curL il have iL: "i < length st0" by (auto simp: graph_ok_def)
  then have iL': "i < length (store s)" using d(2) by simp
  show ?case
  proof (cases "mn_token (store s ! i) = tok")
    case True
    then have "visit_links tok ex ey cur (i # rest) s = visit_links tok ex ey cur rest s"
      by (intro visit_links_skip) simp
    with Cons.IH [OF Cons.prems(1,2,3) rl Cons.prems(5)] show ?thesis by simp
  next
    case False
    let ?idx = "get_cost (mn_x (store s ! i)) (mn_y (store s ! i)) ex ey
                    + (mn_cost (store s ! cur) + 1) - base_cost s"
    from False d(7) [OF iL] fr iL have gt: "tok > mn_token (store s ! i)"
      by (auto simp: fresh_def)
    from un il have u: "\<bar>mn_x (st0 ! i) - mn_x (st0 ! cur)\<bar> + \<bar>mn_y (st0 ! i) - mn_y (st0 ! cur)\<bar> = 1"
      by blast
    have xy: "mn_x (store s ! i) = mn_x (st0 ! i)" "mn_y (store s ! i) = mn_y (st0 ! i)"
      "mn_x (store s ! cur) = mn_x (st0 ! cur)" "mn_y (store s ! cur) = mn_y (st0 ! cur)"
      using d(5,6) iL curL by simp_all
    from Cons.prems(5) have c0: "get_cost (mn_x (st0 ! cur)) (mn_y (st0 ! cur)) ex ey
        + mn_cost (store s ! cur) - base_cost s = 0"
      unfolding bucket_index_def xy .
    from unit_step_cost [OF u, of ex ey] c0 have two: "?idx = 0 \<or> ?idx = 2"
      unfolding xy by linarith
    then have ok1: "0 \<le> ?idx" and ok2: "?idx < int (length (opens s))"
      using d(1) by auto
    from two have k: "nat ?idx < 4" by auto
    from two have kk: "?idx = int (nat ?idx)" by auto
    let ?s1 = "mark tok cur i (nat ?idx) s"
    have step: "visit_links tok ex ey cur (i # rest) s = visit_links tok ex ey cur rest ?s1"
      by (rule visit_links_mark [OF iL' gt ok1 ok2])
    have inv1: "bucket_inv tok start st0 X ?s1"
      by (rule mark_inv [OF Cons.prems(1) g Cons.prems(3) il False k])
    have f1: "inv_f ex ey ?s1"
      by (rule mark_f [OF sh Cons.prems(2) iL False k kk])
    have c1: "cur \<in> set (searched ?s1)" using Cons.prems(3) by simp
    from u have ne: "cur \<noteq> i" by auto
    have "store ?s1 ! cur = store s ! cur"
      using store_mark [OF iL', of cur tok cur "nat ?idx"] curL d(2) ne by simp
    then have b1: "bucket_index ex ey ?s1 cur = 0"
      using Cons.prems(5) unfolding bucket_index_def by simp
    from Cons.IH [OF inv1 f1 c1 rl b1] show ?thesis unfolding step .
  qed
qed

lemma pop0_f:
  assumes f: "inv_f ex ey s" and l: "length (opens s) = 4" and ne: "opens s ! 0 \<noteq> []"
  shows "inv_f ex ey (pop0 s)" and "bucket_index ex ey (pop0 s) (last (opens s ! 0)) = 0"
proof -
  have bi: "\<And>n. bucket_index ex ey (pop0 s) n = bucket_index ex ey s n"
    by (simp add: bucket_index_def pop0_def)
  from ne have "last (opens s ! 0) \<in> set (opens s ! 0)" by simp
  with f show "bucket_index ex ey (pop0 s) (last (opens s ! 0)) = 0"
    unfolding bi inv_f_def by fastforce
  have sub: "\<And>k. k < 4 \<Longrightarrow> set (opens (pop0 s) ! k) \<subseteq> set (opens s ! k)"
  proof -
    fix k :: nat assume "k < 4"
    with l show "set (opens (pop0 s) ! k) \<subseteq> set (opens s ! k)"
      by (cases "k = 0") (auto simp: pop0_def dest: in_set_butlastD)
  qed
  show "inv_f ex ey (pop0 s)"
    unfolding inv_f_def bi using f sub unfolding inv_f_def by blast
qed

lemma shift_f:
  assumes f: "inv_f ex ey s" and l: "length (opens s) = 4"
  shows "inv_f ex ey (shift s)"
  unfolding inv_f_def
proof (intro allI impI ballI)
  fix k n assume k: "k < (4::nat)" and n: "n \<in> set (opens (shift s) ! k)"
  from len4 [OF l] obtain a b c d where o: "opens s = [a, b, c, d]" by blast
  have o': "opens (shift s) = [b, c, d, []]" by (simp add: shift_def o)
  have bi: "bucket_index ex ey (shift s) n = bucket_index ex ey s n - 1"
    by (simp add: bucket_index_def shift_def)
  from n k have "Suc k < 4 \<and> n \<in> set (opens s ! Suc k)"
    unfolding o o' by (auto simp: nth_Cons' split: if_splits)
  with f have "bucket_index ex ey s n = int (Suc k)" unfolding inv_f_def by blast
  then show "bucket_index ex ey (shift s) n = int k" unfolding bi by simp
qed

lemma search_body_expand:
  assumes "opens s ! 0 \<noteq> []" "last (opens s ! 0) \<noteq> e"
    and "visit_links tok ex ey (last (opens s ! 0))
           (mn_nodes (store (pop0 s) ! last (opens s ! 0))) (pop0 s) = Inr s2"
  shows "search_body tok e ex ey s = Inr s2"
  using assms by (simp add: search_body_def pop0_def Let_def)

lemma expand_unit:
  assumes g: "graph_ok st0" and fr: "fresh tok st0" and ul: "unit_links st0 start"
    and inv: "bucket_inv tok start st0 X s" and f: "inv_f ex ey s"
    and ne: "opens s ! 0 \<noteq> []" and ce: "last (opens s ! 0) \<noteq> e"
  shows "\<exists>s2. search_body tok e ex ey s = Inr s2 \<and> inv_f ex ey s2 \<and>
           visit_links tok ex ey (last (opens s ! 0))
             (mn_nodes (store (pop0 s) ! last (opens s ! 0))) (pop0 s) = Inr s2"
proof -
  let ?cur = "last (opens s ! 0)"
  from inv have sh: "inv_shape tok start st0 s" and pe: "inv_pending tok start st0 s"
    by (simp_all add: bucket_inv_def)
  note d = inv_shapeD [OF sh]
  note p = pop0_inv [OF inv ne]
  from pe p(2,3) have re: "link_reach st0 start ?cur" unfolding inv_pending_def by blast
  from ul p(2) re have un: "\<forall>j\<in>set (mn_nodes (st0 ! ?cur)).
               \<bar>mn_x (st0 ! j) - mn_x (st0 ! ?cur)\<bar> + \<bar>mn_y (st0 ! j) - mn_y (st0 ! ?cur)\<bar> = 1"
    unfolding unit_links_def by blast
  note pf = pop0_f [OF f d(1) ne]
  have c: "?cur \<in> set (searched (pop0 s))" by (simp add: pop0_def)
  have lk: "mn_nodes (store (pop0 s) ! ?cur) = mn_nodes (st0 ! ?cur)"
    using d(4) [OF p(2)] by (simp add: pop0_def)
  from visit_links_unit [OF g fr un p(1) pf(1) c _ pf(2), of "mn_nodes (st0 ! ?cur)"]
  obtain s2 where s2: "visit_links tok ex ey ?cur (mn_nodes (st0 ! ?cur)) (pop0 s) = Inr s2"
    "inv_f ex ey s2" by auto
  from search_body_expand [OF ne ce, of tok ex ey s2] s2(1)
  have "search_body tok e ex ey s = Inr s2" unfolding lk by simp
  with s2 show ?thesis unfolding lk by blast
qed

lemma search_loop_unit:
  assumes g: "graph_ok st0" and fr: "fresh tok st0" and ul: "unit_links st0 start"
  shows "bucket_inv tok start st0 (set (searched s)) s \<Longrightarrow> inv_f end_x end_y s \<Longrightarrow>
     e \<notin> set (searched s) \<Longrightarrow> e < length st0 \<Longrightarrow>
     \<exists>res st'. search_loop tok start e end_x end_y s = Some (Inr res, st') \<and>
        bucket_run tok start e st0 res st'"
proof (induction s rule: wf_induct_rule [OF wf_measures [of "[\<lambda>s. card (unmarked tok s), m_items, m_weight]"]])
  case (1 s)
  note inv = "1.prems"(1) and f = "1.prems"(2)
  from inv have sh: "inv_shape tok start st0 s" and mk: "inv_marked tok start st0 s"
    and pe: "inv_pending tok start st0 s" by (simp_all add: bucket_inv_def)
  note d = inv_shapeD [OF sh]
  show ?case
  proof (cases rule: search_body_cases [of s tok e end_x end_y])
    case null
    from len4 [OF d(1)] null(1-4) have "opens s = [[], [], [], []]" by auto
    then have emp: "\<And>n. \<not> in_bucket s n" by (simp add: in_bucket_def)
    have nr: "\<not> link_reach st0 start e"
      using closed_under_links [OF g inv emp] "1.prems"(3) by blast
    have "search_loop tok start e end_x end_y s = Some (Inr None, store s)"
      by (subst search_loop.simps) (simp add: null(5))
    moreover have "bucket_run tok start e st0 None (store s)"
      unfolding bucket_run_def using sh mk nr by blast
    ultimately show ?thesis by blast
  next
    case found
    note p = pop0_inv [OF inv found(1), unfolded found(2)]
    from p(1) have sh1: "inv_shape tok start st0 (pop0 s)" and mk1: "inv_marked tok start st0 (pop0 s)"
      by (simp_all add: bucket_inv_def)
    have st: "store (pop0 s) = store s" by (simp add: pop0_def)
    from d(12) "1.prems"(3) have ne: "e \<noteq> start" by blast
    from walk_prev_ok [OF sh1 mk1 p(2) p(3) [folded st] ne, of "[e]"] obtain rest where
      w: "walk_prev (store (pop0 s)) start e [e] = Some ([e] @ rest)"
         "back_chain (store (pop0 s)) start (e # rest)" by blast
    from pe p(2,3) have re: "link_reach st0 start e" unfolding inv_pending_def by blast
    have "search_loop tok start e end_x end_y s = Some (Inr (Some (e # rest)), store (pop0 s))"
      by (subst search_loop.simps) (simp add: found(3) w(1))
    moreover have "bucket_run tok start e st0 (Some (e # rest)) (store (pop0 s))"
      unfolding bucket_run_def using sh1 mk1 w(2) re p(3) [folded st] by blast
    ultimately show ?thesis by blast
  next
    case (throw s2)
    from expand_unit [OF g fr ul inv f throw(1,2)] throw(3) show ?thesis by auto
  next
    case (expand s2)
    let ?cur = "last (opens s ! 0)"
    note p = pop0_inv [OF inv expand(1)]
    have se: "searched (pop0 s) = searched s @ [?cur]" by (simp add: pop0_def)
    then have c: "?cur \<in> set (searched (pop0 s))" by simp
    note x = expand_inv_bucket [OF g fr p(1) c expand(3)]
    have X: "insert ?cur (set (searched s)) = set (searched s2)" by (simp add: x(2) se)
    have inv2: "bucket_inv tok start st0 (set (searched s2)) s2" using x(1) unfolding X .
    from expand_unit [OF g fr ul inv f expand(1,2)] expand(4) have f2: "inv_f end_x end_y s2" by auto
    have e2: "e \<notin> set (searched s2)" using "1.prems"(3) expand(2) by (simp add: x(2) se)
    have m: "(s2, s) \<in> measures [\<lambda>s. card (unmarked tok s), m_items, m_weight]"
      by (rule expand_measure [OF d(1) expand(1) x(3,4)])
    from "1.IH" [OF m inv2 f2 e2 "1.prems"(4)] obtain res st' where
      "search_loop tok start e end_x end_y s2 = Some (Inr res, st')" "bucket_run tok start e st0 res st'"
      by blast
    moreover have "search_loop tok start e end_x end_y s = search_loop tok start e end_x end_y s2"
      by (subst search_loop.simps) (simp add: expand(4))
    ultimately show ?thesis by simp
  next
    case shift
    have se: "searched (shift s) = searched s" by (simp add: shift_def)
    have inv2: "bucket_inv tok start st0 (set (searched (shift s))) (shift s)"
      unfolding se by (rule shift_inv [OF inv shift(1)])
    have f2: "inv_f end_x end_y (shift s)" by (rule shift_f [OF f d(1)])
    have m: "(shift s, s) \<in> measures [\<lambda>s. card (unmarked tok s), m_items, m_weight]"
      by (rule shift_measure [OF d(1) shift(1,2)])
    from "1.IH" [OF m inv2 f2 _ "1.prems"(4)] "1.prems"(3) obtain res st' where
      "search_loop tok start e end_x end_y (shift s) = Some (Inr res, st')" "bucket_run tok start e st0 res st'"
      unfolding se by blast
    moreover have "search_loop tok start e end_x end_y s = search_loop tok start e end_x end_y (shift s)"
      by (subst search_loop.simps) (simp add: shift(3))
    ultimately show ?thesis by simp
  qed
qed

lemma search_unit:
  assumes g: "graph_ok st0" and fr: "fresh tok st0" and ul: "unit_links st0 start"
    and s: "start < length st0" and e: "e < length st0" and ne: "start \<noteq> e"
  shows "\<exists>res st'. search tok st0 start e = Some (Inr res, st') \<and> bucket_run tok start e st0 res st'"
proof -
  let ?s0 = "search_init st0 start e"
  let ?ex = "mn_x (st0 ! e)" and ?ey = "mn_y (st0 ! e)"
  have o0: "opens ?s0 ! 0 = [start]" by (simp add: search_init_def)
  then have ne0: "opens ?s0 ! 0 \<noteq> []" and ce: "last (opens ?s0 ! 0) \<noteq> e" using ne by simp_all
  have c: "start \<in> set (searched (pop0 ?s0))" by (simp add: search_init_pop0)
  note i1 = bucket_inv_first [OF fr s, of e]
  have f1: "inv_f ?ex ?ey (pop0 ?s0)" by (simp add: inv_f_def search_init_pop0 nth_Cons')
  from fr s have "mn_cost (st0 ! start) = 0" by (simp add: fresh_def)
  then have b1: "bucket_index ?ex ?ey (pop0 ?s0) start = 0"
    unfolding bucket_index_def search_init_pop0 by (simp add: search_init_def)
  from ul s have un: "\<forall>j\<in>set (mn_nodes (st0 ! start)).
       \<bar>mn_x (st0 ! j) - mn_x (st0 ! start)\<bar> + \<bar>mn_y (st0 ! j) - mn_y (st0 ! start)\<bar> = 1"
    unfolding unit_links_def using link_reach_refl by blast
  from visit_links_unit [OF g fr un i1 f1 c _ b1, of "mn_nodes (st0 ! start)"]
  obtain s2 where s2: "visit_links tok ?ex ?ey start (mn_nodes (st0 ! start)) (pop0 ?s0) = Inr s2"
    "inv_f ?ex ?ey s2" by auto
  have lk: "mn_nodes (store (pop0 ?s0) ! start) = mn_nodes (st0 ! start)"
    by (simp add: search_init_pop0)
  have v: "visit_links tok ?ex ?ey start (mn_nodes (store (pop0 ?s0) ! start)) (pop0 ?s0) = Inr s2"
    unfolding lk by (rule s2(1))
  have sb: "search_body tok e ?ex ?ey ?s0 = Inr s2"
    using search_body_expand [OF ne0 ce, of tok ?ex ?ey s2] v unfolding o0 by simp
  note x = expand_inv_bucket [OF g fr i1 c v]
  have se: "searched s2 = [start]" using x(2) by (simp add: search_init_pop0)
  have inv2: "bucket_inv tok start st0 (set (searched s2)) s2" using x(1) by (simp add: se)
  have e2: "e \<notin> set (searched s2)" using ne by (simp add: se)
  from search_loop_unit [OF g fr ul inv2 s2(2) e2 e] obtain res st' where
    r: "search_loop tok start e ?ex ?ey s2 = Some (Inr res, st')" "bucket_run tok start e st0 res st'"
    by blast
  have "search tok st0 start e = search_loop tok start e ?ex ?ey s2"
    unfolding search_def by (subst search_loop.simps) (simp add: sb)
  with r show ?thesis by simp
qed

lemma back_chain_ne: "back_chain st start (m # rest) \<Longrightarrow> m \<noteq> start"
  by (cases rest) simp_all

lemma chain_walk:
  assumes sh: "inv_shape tok start st0 s" and mk: "inv_marked tok start st0 s"
  shows "back_chain (store s) start (m # rest) \<Longrightarrow> m < length st0 \<Longrightarrow>
     mn_token (store s ! m) = tok \<Longrightarrow>
     link_walk st0 (m # rest @ [start]) \<and> no_backtrack (m # rest @ [start]) \<and>
     (\<forall>k\<in>set (m # rest @ [start]). k < length st0)"
proof (induction rest arbitrary: m)
  case Nil
  note d = inv_shapeD [OF sh]
  from Nil(1) have "m \<in> set (mn_nodes (store s ! start))" by simp
  then have "m \<in> set (mn_nodes (st0 ! start))" using d(4) [OF d(3)] by simp
  with Nil(2) d(3) show ?case by simp
next
  case (Cons q rest)
  from Cons.prems(1) have bc: "mn_prev (store s ! m) = Some q" "m \<noteq> start"
    "mn_cost (store s ! m) = mn_cost (store s ! q) + 1" "back_chain (store s) start (q # rest)"
    by simp_all
  from mk Cons.prems(2,3) obtain p where p: "mn_prev (store s ! m) = Some p" "p < length st0"
    "m \<in> set (mn_nodes (st0 ! p))" "p = start \<or> mn_token (store s ! p) = tok"
    unfolding inv_marked_def by blast
  from p(1) bc(1) have pq: "p = q" by simp
  from back_chain_ne [OF bc(4)] have qs: "q \<noteq> start" .
  from p(2,3,4) qs have q: "q < length st0" "mn_token (store s ! q) = tok"
    "m \<in> set (mn_nodes (st0 ! q))" unfolding pq by simp_all
  note ih = Cons.IH [OF bc(4) q(1,2)]
  obtain r rs where rr: "rest @ [start] = r # rs" by (cases "rest @ [start]") simp_all
  have mr: "m \<noteq> r"
  proof (cases rest)
    case Nil
    with rr bc(2) show ?thesis by simp
  next
    case (Cons r' rest')
    with rr have "r' = r" by simp
    with bc(4) Cons have "mn_cost (store s ! q) = mn_cost (store s ! r) + 1" by simp
    with bc(3) show ?thesis by auto
  qed
  from ih have 1: "link_walk st0 (q # r # rs)" and 2: "no_backtrack (q # r # rs)"
    and 3: "\<forall>k\<in>set (q # r # rs). k < length st0" unfolding rr by simp_all
  have "(m # (q # rest) @ [start]) = m # q # r # rs" using rr by simp
  with 1 2 3 q(3) mr Cons.prems(2) show ?case by simp
qed

lemma no_backtrack_map:
  assumes "\<And>x y. f x = f y \<Longrightarrow> x = y"
  shows "no_backtrack xs \<Longrightarrow> no_backtrack (map f xs)"
proof (induction xs rule: no_backtrack.induct)
  case (1 p q r rest)
  then show ?case using assms [of p r] by auto
qed simp_all

lemma unit_dirs_swap: "diff q p \<in> unit_dirs \<Longrightarrow> diff p q \<in> unit_dirs"
proof -
  assume a: "diff q p \<in> unit_dirs"
  have s: "diff p q = (- fst (diff q p), - snd (diff q p))" by (simp add: diff_def)
  from unit_dirs_cases [OF a] show ?thesis unfolding s
    by (elim disjE) (simp_all add: unit_dirs_def)
qed

lemma unit_dirs_abs: "diff q p \<in> unit_dirs \<Longrightarrow> \<bar>fst q - fst p\<bar> + \<bar>snd q - snd p\<bar> = 1"
proof -
  assume "diff q p \<in> unit_dirs"
  from unit_dirs_cases [OF this] show ?thesis
    by (elim disjE) (simp_all add: diff_def)
qed

lemma node_cell:
  "i < length data \<Longrightarrow>
   (mn_x (createNodes w h data ! i), mn_y (createNodes w h data ! i)) = cell w i"
  by (simp add: createNodes_nth cell_def)

lemma link_walk_cells:
  assumes sc: "same_cells a data" and sl: "same_links a data"
  shows "link_walk (createNodes (nat (mapSize a)) (nat (mapSize a)) data) xs \<Longrightarrow> xs \<noteq> [] \<Longrightarrow>
     (\<forall>k\<in>set xs. k < length data) \<Longrightarrow> data ! last xs = 0 \<Longrightarrow>
     unit_walk (map (cell (nat (mapSize a))) xs) \<and> (\<forall>k\<in>set xs. data ! k = 0)"
proof (induction xs)
  case Nil
  then show ?case by simp
next
  case (Cons x xs)
  let ?n = "nat (mapSize a)"
  show ?case
  proof (cases xs)
    case Nil
    with Cons.prems show ?thesis by simp
  next
    case (Cons b rest)
    with Cons.prems have lk: "x \<in> set (mn_nodes (createNodes ?n ?n data ! b))"
      and w: "link_walk (createNodes ?n ?n data) xs" and ne: "xs \<noteq> []"
      and bd: "\<forall>k\<in>set xs. k < length data" and la: "data ! last xs = 0"
      and bL: "b < length data"
      by simp_all
    from Cons.IH [OF w ne bd la] have ih: "unit_walk (map (cell ?n) xs)" "\<forall>k\<in>set xs. data ! k = 0"
      by simp_all
    from ih(2) Cons have b0: "data ! b = 0" by simp
    from lk bL have "x \<in> set (node_links ?n ?n data b)" by (simp add: createNodes_links)
    note u = link_unit [OF sc sl bL b0 this]
    from unit_dirs_swap [OF u(3)] have "diff (cell ?n b) (cell ?n x) \<in> unit_dirs" .
    with ih u(2) Cons show ?thesis by simp
  qed
qed

lemma bucket_length:
  assumes sc: "same_cells a data" and sl: "same_links a data"
    and si: "si < length data" "data ! si = 0" and ei: "ei < length data"
    and run: "bucket_run tok si ei (createNodes (nat (mapSize a)) (nat (mapSize a)) data) (Some b) st'"
  shows "\<bar>fst (cell (nat (mapSize a)) si) - fst (cell (nat (mapSize a)) ei)\<bar> +
         \<bar>snd (cell (nat (mapSize a)) si) - snd (cell (nat (mapSize a)) ei)\<bar> = int (length b)"
proof -
  let ?n = "nat (mapSize a)"
  let ?g = "createNodes ?n ?n data"
  from run obtain sf rest where sf: "inv_shape tok si ?g sf" "inv_marked tok si ?g sf"
    and b: "b = ei # rest" and bc: "back_chain (store sf) si (ei # rest)"
    and tk: "mn_token (store sf ! ei) = tok"
    unfolding bucket_run_def by auto
  let ?xs = "ei # rest @ [si]"
  from chain_walk [OF sf bc _ tk] ei have cw: "link_walk ?g ?xs" "no_backtrack ?xs"
    "\<forall>k\<in>set ?xs. k < length data" by simp_all
  have la: "data ! last ?xs = 0" using si(2) by simp
  from link_walk_cells [OF sc sl cw(1) _ cw(3) la] have uw: "unit_walk (map (cell ?n) ?xs)"
    and pass: "\<forall>k\<in>set ?xs. data ! k = 0" by simp_all
  have nb: "no_backtrack (map (cell ?n) ?xs)"
    by (rule no_backtrack_map [OF cell_inj cw(2)])
  have nd: "\<forall>u\<in>set (map (cell ?n) ?xs). \<forall>v\<in>set (map (cell ?n) ?xs). diff v u \<notin> diag_dirs"
  proof (intro ballI)
    fix u v assume "u \<in> set (map (cell ?n) ?xs)" "v \<in> set (map (cell ?n) ?xs)"
    then obtain i j where ij: "i \<in> set ?xs" "j \<in> set ?xs" "u = cell ?n i" "v = cell ?n j" by auto
    with cw(3) pass have "i < length data" "data ! i = 0" "j < length data" "data ! j = 0" by blast+
    from no_diag [OF sc sl this] show "diff v u \<notin> diag_dirs" unfolding ij(3,4) .
  qed
  have ne: "map (cell ?n) ?xs \<noteq> []" by simp
  have hd: "hd (map (cell ?n) ?xs) = cell ?n ei" by simp
  have ls: "last (map (cell ?n) ?xs) = cell ?n si" by (simp add: last_map)
  have ln: "int (length (map (cell ?n) ?xs)) - 1 = int (length b)" by (simp add: b)
  from straight_walk [OF uw nb ne nd] show ?thesis unfolding hd ls ln .
qed

lemma link_reach_hex:
  assumes sc: "same_cells a data" and sl: "same_links a data"
    and si: "si < length data" "data ! si = 0"
  shows "link_reach (createNodes (nat (mapSize a)) (nat (mapSize a)) data) si j \<Longrightarrow>
     j < length data \<and> data ! j = 0 \<and>
     reachable a (cell (nat (mapSize a)) si) (cell (nat (mapSize a)) j)"
  unfolding link_reach_def
proof (induction rule: rtranclp_induct)
  case base
  with si show ?case by (simp add: reachable_refl)
next
  case (step y z)
  let ?n = "nat (mapSize a)"
  from step(3) have y: "y < length data" "data ! y = 0"
    and r: "reachable a (cell ?n si) (cell ?n y)" by simp_all
  from step(2) y(1) have lk: "z \<in> set (node_links ?n ?n data y)" by (simp add: createNodes_links)
  note u = link_unit [OF sc sl y lk]
  from link_to_hex [OF sl y lk] have "cell ?n z \<in> set (neighbor_keys a (cell ?n y))" .
  from reachable_step [OF r this] u(1,2) show ?case by simp
qed

lemma hex_reach_link:
  assumes sc: "same_cells a data" and sl: "same_links a data"
    and vs: "isValidPosition a (fst start) (snd start)"
  shows "reachable a start q \<Longrightarrow>
     isValidPosition a (fst q) (snd q) \<and>
     link_reach (createNodes (nat (mapSize a)) (nat (mapSize a)) data)
       (cell_index (nat (mapSize a)) start) (cell_index (nat (mapSize a)) q)"
  unfolding reachable_def
proof (induction rule: rtranclp_induct)
  case base
  with vs show ?case by (simp add: link_reach_refl)
next
  case (step y z)
  let ?n = "nat (mapSize a)"
  let ?g = "createNodes ?n ?n data"
  from step(3) have vy: "isValidPosition a (fst y) (snd y)"
    and r: "link_reach ?g (cell_index ?n start) (cell_index ?n y)" by simp_all
  from vy have "isValidCoordinate a (fst y) (snd y)" by (simp add: isValidPosition_def)
  note iy = valid_cell_index [OF sc this]
  from cell_passable [OF sc iy(1)] vy have y0: "data ! cell_index ?n y = 0" by (simp add: iy(2))
  from step(2) have nb: "z \<in> set (neighbor_keys a (cell ?n (cell_index ?n y)))" by (simp add: iy(2))
  from hex_to_link [OF sl iy(1) y0 nb] obtain j where
    j: "j \<in> set (node_links ?n ?n data (cell_index ?n y))" "cell ?n j = z" by blast
  from j(2) have jz: "cell_index ?n z = j" by (metis index_of_cell)
  from j(1) iy(1) have "j \<in> set (mn_nodes (?g ! cell_index ?n y))" by (simp add: createNodes_links)
  from link_reach_step [OF r this] have "link_reach ?g (cell_index ?n start) (cell_index ?n z)"
    unfolding jz .
  moreover from step(2) have "isValidPosition a (fst z) (snd z)" unfolding neighbor_keys_iff by simp
  ultimately show ?case by simp
qed

lemma createNodes_unit_links:
  assumes sc: "same_cells a data" and sl: "same_links a data"
    and si: "si < length data" "data ! si = 0"
  shows "unit_links (createNodes (nat (mapSize a)) (nat (mapSize a)) data) si"
  unfolding unit_links_def
proof (intro allI impI ballI)
  let ?n = "nat (mapSize a)"
  let ?g = "createNodes ?n ?n data"
  fix i j assume i: "i < length ?g" and r: "link_reach ?g si i" and j: "j \<in> set (mn_nodes (?g ! i))"
  from i have iL: "i < length data" by simp
  from link_reach_hex [OF sc sl si r] have i0: "data ! i = 0" by simp
  from j iL have "j \<in> set (node_links ?n ?n data i)" by (simp add: createNodes_links)
  note u = link_unit [OF sc sl iL i0 this]
  from node_cell [OF iL, of ?n ?n] node_cell [OF u(1), of ?n ?n]
  have c: "mn_x (?g ! i) = fst (cell ?n i)" "mn_y (?g ! i) = snd (cell ?n i)"
    "mn_x (?g ! j) = fst (cell ?n j)" "mn_y (?g ! j) = snd (cell ?n j)"
    by (metis fst_conv, metis snd_conv, metis fst_conv, metis snd_conv)
  from unit_dirs_abs [OF u(3)]
  show "\<bar>mn_x (?g ! j) - mn_x (?g ! i)\<bar> + \<bar>mn_y (?g ! j) - mn_y (?g ! i)\<bar> = 1"
    unfolding c .
qed

text \<open>
  The first search over freshly built nodes. When the map of \<^verbatim>\<open>findPath\<close> and the array
  of \<^verbatim>\<open>createNodes\<close> have the same free cells, and every free cell has the same
  neighbours for \<^verbatim>\<open>getNeighbors\<close> as along the links of \<^verbatim>\<open>createNodes\<close>, both searches
  return and neither raises, one returns \<^verbatim>\<open>null\<close> exactly when the other does, and the
  path of \<^verbatim>\<open>findPath\<close> has one node more than the sequence of \<^verbatim>\<open>search\<close>, which leaves
  the start out (for start = end both hold that one cell): the number of steps is the
  distance \<open>|dx| + |dy|\<close> from the start to the end. The neighbours agree in this way only
  on maps where no two free cells touch diagonally (\<open>no_diag\<close>): \<^verbatim>\<open>createNodes\<close> links a
  cell to (x + 1, y - 1) and (x + 1, y + 1) on every row, \<^verbatim>\<open>getNeighbors\<close> on odd rows
  only, and on even rows it yields (x - 1, y - 1) and (x - 1, y + 1) instead.
\<close>

lemma first_search_agrees:
  assumes v: "valid_input a start e" and sc: "same_cells a data" and sl: "same_links a data"
  shows "\<exists>ra rb st'.
     fst (findPath a start e) = Some (Inr ra) \<and>
     search 1 (createNodes (nat (mapSize a)) (nat (mapSize a)) data)
       (cell_index (nat (mapSize a)) start) (cell_index (nat (mapSize a)) e) = Some (Inr rb, st') \<and>
     (ra = None \<longleftrightarrow> rb = None) \<and>
     (\<forall>p b. ra = Some p \<and> rb = Some b \<longrightarrow>
        (if start = e then length p = 1 \<and> b = [cell_index (nat (mapSize a)) e]
         else length p = Suc (length b)) \<and>
        int (length p) - 1 = \<bar>fst e - fst start\<bar> + \<bar>snd e - snd start\<bar>)"
proof -
  let ?n = "nat (mapSize a)"
  let ?g = "createNodes ?n ?n data"
  let ?si = "cell_index ?n start" and ?ei = "cell_index ?n e"
  from v have vs: "isValidCoordinate a (fst start) (snd start)"
    and ve: "isValidCoordinate a (fst e) (snd e)"
    and ps: "isValidPosition a (fst start) (snd start)"
    by (simp_all add: valid_input_def isValidPosition_def)
  note ix = valid_cell_index [OF sc vs] and ie = valid_cell_index [OF sc ve]
  from cell_passable [OF sc ix(1)] ps have s0: "data ! ?si = 0" by (simp add: ix(2))
  have corr: "link_reach ?g ?si ?ei \<longleftrightarrow> reachable a start e"
  proof
    assume "link_reach ?g ?si ?ei"
    from link_reach_hex [OF sc sl ix(1) s0 this] show "reachable a start e"
      by (simp add: ix(2) ie(2))
  next
    assume "reachable a start e"
    from hex_reach_link [OF sc sl ps this] show "link_reach ?g ?si ?ei" by simp
  qed
  note nul = findPath_null_iff [OF v]
  from search_run [OF v] have run: "fst (findPath a start e) = Some (Inr None) \<or>
      (\<exists>p. fst (findPath a start e) = Some (Inr (Some p)))" by auto
  show ?thesis
  proof (cases "start = e")
    case True
    then have "reachable a start e" by (simp add: reachable_refl)
    with nul run obtain p where p: "fst (findPath a start e) = Some (Inr (Some p))" by auto
    from findPath_length [OF v sc sl p] have l: "int (length p) - 1 = \<bar>fst e - fst start\<bar> + \<bar>snd e - snd start\<bar>"
      by simp
    with True have l1: "length p = 1" by simp
    from search_ok [OF createNodes_graph_ok createNodes_fresh, of ?si ?n ?n data ?ei] ix(1) ie(1) True
    obtain st' where s: "search 1 ?g ?si ?ei = Some (Inr (Some [?ei]), st')" by auto
    from p s l l1 True show ?thesis by simp
  next
    case False
    have ne: "?si \<noteq> ?ei"
    proof
      assume "?si = ?ei"
      then have "cell ?n ?si = cell ?n ?ei" by simp
      with False show False by (simp add: ix(2) ie(2))
    qed
    have ul: "unit_links ?g ?si" by (rule createNodes_unit_links [OF sc sl ix(1) s0])
    from search_unit [OF createNodes_graph_ok createNodes_fresh ul _ _ ne] ix(1) ie(1)
    obtain rb st' where s: "search 1 ?g ?si ?ei = Some (Inr rb, st')"
      and br: "bucket_run 1 ?si ?ei ?g rb st'" by auto
    from br have alt: "(rb = None \<and> \<not> link_reach ?g ?si ?ei) \<or> (rb \<noteq> None \<and> link_reach ?g ?si ?ei)"
      unfolding bucket_run_def by auto
    from run show ?thesis
    proof
      assume n: "fst (findPath a start e) = Some (Inr None)"
      with nul corr alt have "rb = None" by blast
      with n s show ?thesis by simp
    next
      assume "\<exists>p. fst (findPath a start e) = Some (Inr (Some p))"
      then obtain p where p: "fst (findPath a start e) = Some (Inr (Some p))" ..
      with nul have "reachable a start e" by auto
      with corr alt obtain b where b: "rb = Some b" by auto
      from findPath_length [OF v sc sl p]
      have l: "int (length p) - 1 = \<bar>fst e - fst start\<bar> + \<bar>snd e - snd start\<bar>" by simp
      from bucket_length [OF sc sl ix(1) s0 ie(1) br [unfolded b]]
      have "\<bar>fst start - fst e\<bar> + \<bar>snd start - snd e\<bar> = int (length b)"
        by (simp add: ix(2) ie(2))
      with l have "length p = Suc (length b)" by linarith
      with p s b l False show ?thesis by simp
    qed
  qed
qed

subsection \<open>The claims\<close>


text \<open>
  C1. The heuristic is meant never to exceed the true number of steps. On the 3 by 3 grid
  without obstacles the cell (1, 2) is a neighbour of (0, 1), one step away, and the
  heuristic from (0, 1) to (1, 2) is 3/2.
\<close>

theorem calculateHeuristic_overestimates:
  "(1, 2) \<in> set (neighbor_keys \<lparr>mapSize = 3, obstacles = {}, endPos = Some (1, 2)\<rparr> (0, 1))
   \<and> hex_path \<lparr>mapSize = 3, obstacles = {}, endPos = Some (1, 2)\<rparr> [(0, 1), (1, 2)]
   \<and> calculateHeuristic (1, 2) 0 1 = 3 / 2
   \<and> calculateHeuristic (1, 2) 0 1 > 1"
  by code_simp

text \<open>
  C3. Whenever \<^verbatim>\<open>findPath\<close> returns a path, the path is not empty, its first node is
  the start and its last node is the end, every node is followed by one of the neighbours
  that \<^verbatim>\<open>getNeighbors\<close> gives for it (the offsets of its own row), and every node is
  inside the map and not an obstacle.
\<close>

theorem findPath_path_valid:
  assumes "fst (findPath a start e) = Some (Inr (Some p))"
  shows "p \<noteq> [] \<and> node_key (hd p) = start \<and> node_key (last p) = e \<and>
         hex_path a (map node_key p) \<and>
         (\<forall>n\<in>set p. isValidCoordinate a (node_x n) (node_y n) \<and> node_key n \<notin> obstacles a)"
  using assms by (rule findPath_path_facts)

theorem findPath_path_valid_witness:
  "fst (findPath \<lparr>mapSize = 3, obstacles = {}, endPos = None\<rparr> (0, 0) (2, 0)) =
     Some (Inr (Some
       [\<lparr>node_x = 0, node_y = 0, node_g = 0, node_h = 2, node_f = 2, node_parent = None\<rparr>,
        \<lparr>node_x = 1, node_y = 0, node_g = 1, node_h = 1, node_f = 2, node_parent = Some 0\<rparr>,
        \<lparr>node_x = 2, node_y = 0, node_g = 2, node_h = 0, node_f = 2, node_parent = Some 1\<rparr>]))
   \<and> hex_path \<lparr>mapSize = 3, obstacles = {}, endPos = None\<rparr> [(0, 0), (1, 0), (2, 0)]"
proof -
  have e: "fst (findPath \<lparr>mapSize = 3, obstacles = {}, endPos = None\<rparr> (0, 0) (2, 0)) =
     Some (Inr (Some
       [\<lparr>node_x = 0, node_y = 0, node_g = 0, node_h = 2, node_f = 2, node_parent = None\<rparr>,
        \<lparr>node_x = 1, node_y = 0, node_g = 1, node_h = 1, node_f = 2, node_parent = Some 0\<rparr>,
        \<lparr>node_x = 2, node_y = 0, node_g = 2, node_h = 0, node_f = 2, node_parent = Some 1\<rparr>]))"
    by code_simp
  from findPath_path_valid [OF e] e show ?thesis by (simp add: node_key_def)
qed

text \<open>
  C4. The constructor throws exactly when the size is not positive. \<^verbatim>\<open>findPath\<close>
  throws exactly when an endpoint is outside the map (the start is checked first, then the
  end) or, both being inside, is an obstacle; the object is then as it was before the call
  (\<^verbatim>\<open>endPos\<close> is not yet assigned), and no other error occurs. On every other input
  \<^verbatim>\<open>findPath\<close> returns, without an error, and it returns \<^verbatim>\<open>null\<close> exactly when the
  loop reaches an empty open list.
\<close>

theorem findPath_errors:
  "((\<exists>err. AStar_new msize obs = Inl err) \<longleftrightarrow> msize \<le> 0) \<and>
   (fst (findPath a start e) = Some (Inl err) \<longleftrightarrow>
      (err = StartInvalid \<and> \<not> isValidCoordinate a (fst start) (snd start)) \<or>
      (err = EndInvalid \<and> isValidCoordinate a (fst start) (snd start) \<and>
         \<not> isValidCoordinate a (fst e) (snd e)) \<or>
      (err = StartObstacle \<and> isValidCoordinate a (fst start) (snd start) \<and>
         isValidCoordinate a (fst e) (snd e) \<and> start \<in> obstacles a) \<or>
      (err = EndObstacle \<and> isValidCoordinate a (fst start) (snd start) \<and>
         isValidCoordinate a (fst e) (snd e) \<and> start \<notin> obstacles a \<and> e \<in> obstacles a)) \<and>
   (fst (findPath a start e) = Some (Inl err) \<longrightarrow> snd (findPath a start e) = a) \<and>
   (isValidCoordinate a (fst start) (snd start) \<and> isValidCoordinate a (fst e) (snd e) \<and>
    start \<notin> obstacles a \<and> e \<notin> obstacles a \<longrightarrow>
      (\<exists>r. fst (findPath a start e) = Some (Inr r)) \<and>
      (fst (findPath a start e) = Some (Inr None) \<longleftrightarrow>
         (\<exists>n sf. expansions n (a\<lparr>endPos := Some e\<rparr>) e (initial_search start e) = Some sf \<and>
            openList sf = [])))"
proof (intro conjI impI)
  show "(\<exists>err. AStar_new msize obs = Inl err) \<longleftrightarrow> msize \<le> 0"
    by (simp add: AStar_new_def)
next
  show "fst (findPath a start e) = Some (Inl err) \<longleftrightarrow>
      (err = StartInvalid \<and> \<not> isValidCoordinate a (fst start) (snd start)) \<or>
      (err = EndInvalid \<and> isValidCoordinate a (fst start) (snd start) \<and>
         \<not> isValidCoordinate a (fst e) (snd e)) \<or>
      (err = StartObstacle \<and> isValidCoordinate a (fst start) (snd start) \<and>
         isValidCoordinate a (fst e) (snd e) \<and> start \<in> obstacles a) \<or>
      (err = EndObstacle \<and> isValidCoordinate a (fst start) (snd start) \<and>
         isValidCoordinate a (fst e) (snd e) \<and> start \<notin> obstacles a \<and> e \<in> obstacles a)"
  proof (cases "valid_input a start e")
    case True
    from search_run [OF True] have "\<exists>r. fst (findPath a start e) = Some (Inr r)" by auto
    with True show ?thesis by (auto simp: valid_input_def)
  next
    case False
    then show ?thesis by (auto simp: findPath_def valid_input_def Let_def)
  qed
next
  assume err: "fst (findPath a start e) = Some (Inl err)"
  have "\<not> valid_input a start e"
  proof
    assume "valid_input a start e"
    from search_run [OF this] err show False by auto
  qed
  from findPath_invalid_input [OF this] show "snd (findPath a start e) = a" by auto
next
  assume "isValidCoordinate a (fst start) (snd start) \<and> isValidCoordinate a (fst e) (snd e) \<and>
    start \<notin> obstacles a \<and> e \<notin> obstacles a"
  then have v: "valid_input a start e" by (simp add: valid_input_def)
  from search_run [OF v] show "\<exists>r. fst (findPath a start e) = Some (Inr r)" by auto
  show "fst (findPath a start e) = Some (Inr None) \<longleftrightarrow>
         (\<exists>n sf. expansions n (a\<lparr>endPos := Some e\<rparr>) e (initial_search start e) = Some sf \<and>
            openList sf = [])"
  proof
    assume "fst (findPath a start e) = Some (Inr None)"
    with search_run [OF v] show "\<exists>n sf. expansions n (a\<lparr>endPos := Some e\<rparr>) e (initial_search start e) = Some sf \<and>
            openList sf = []" by auto
  next
    assume "\<exists>n sf. expansions n (a\<lparr>endPos := Some e\<rparr>) e (initial_search start e) = Some sf \<and>
            openList sf = []"
    then obtain n sf where run: "expansions n (a\<lparr>endPos := Some e\<rparr>) e (initial_search start e) = Some sf"
      and emp: "openList sf = []" by blast
    have "main_loop (a\<lparr>endPos := Some e\<rparr>) e sf = Some (Inr None)"
      by (subst main_loop.simps) (simp add: loop_body_def emp)
    with main_loop_expansions [OF run] show "fst (findPath a start e) = Some (Inr None)"
      by (simp add: findPath_valid_input [OF v])
  qed
qed

theorem findPath_errors_witness:
  "fst (findPath \<lparr>mapSize = 4, obstacles = {(1, 0), (1, 1), (1, 2), (1, 3)}, endPos = None\<rparr> (0, 0) (3, 3))
     = Some (Inr None)
   \<and> (\<exists>n sf. expansions n \<lparr>mapSize = 4, obstacles = {(1, 0), (1, 1), (1, 2), (1, 3)}, endPos = Some (3, 3)\<rparr>
               (3, 3) (initial_search (0, 0) (3, 3)) = Some sf \<and> openList sf = [])
   \<and> fst (findPath \<lparr>mapSize = 4, obstacles = {(1, 0), (1, 1), (1, 2), (1, 3)}, endPos = None\<rparr> (4, 0) (3, 3))
     = Some (Inl StartInvalid)
   \<and> snd (findPath \<lparr>mapSize = 4, obstacles = {(1, 0), (1, 1), (1, 2), (1, 3)}, endPos = None\<rparr> (4, 0) (3, 3))
     = \<lparr>mapSize = 4, obstacles = {(1, 0), (1, 1), (1, 2), (1, 3)}, endPos = None\<rparr>
   \<and> fst (findPath \<lparr>mapSize = 4, obstacles = {(1, 0), (1, 1), (1, 2), (1, 3)}, endPos = None\<rparr> (0, 0) (1, 2))
     = Some (Inl EndObstacle)"
proof -
  let ?a = "\<lparr>mapSize = 4, obstacles = {(1, 0), (1, 1), (1, 2), (1, 3)}, endPos = None\<rparr>"
  have v: "isValidCoordinate ?a (fst (0, 0)) (snd (0, 0)) \<and> isValidCoordinate ?a (fst (3, 3)) (snd (3, 3)) \<and>
    (0, 0) \<notin> obstacles ?a \<and> (3, 3) \<notin> obstacles ?a"
    by (simp add: isValidCoordinate_def)
  have n: "fst (findPath ?a (0, 0) (3, 3)) = Some (Inr None)" by code_simp
  have i: "\<not> isValidCoordinate ?a (fst (4, 0)) (snd (4, 0))" by (simp add: isValidCoordinate_def)
  have o: "isValidCoordinate ?a (fst (1, 2)) (snd (1, 2)) \<and> (1, 2) \<in> obstacles ?a"
    by (simp add: isValidCoordinate_def)
  from findPath_errors [of 4 None ?a "(0, 0)" "(3, 3)" StartInvalid] v n
  have 1: "\<exists>n sf. expansions n (?a\<lparr>endPos := Some (3, 3)\<rparr>) (3, 3) (initial_search (0, 0) (3, 3)) = Some sf \<and> openList sf = []"
    by blast
  from findPath_errors [of 4 None ?a "(4, 0)" "(3, 3)" StartInvalid] i
  have 2: "fst (findPath ?a (4, 0) (3, 3)) = Some (Inl StartInvalid)"
    "snd (findPath ?a (4, 0) (3, 3)) = ?a" by blast+
  from findPath_errors [of 4 None ?a "(0, 0)" "(1, 2)" EndObstacle] v o
  have 3: "fst (findPath ?a (0, 0) (1, 2)) = Some (Inl EndObstacle)" by blast
  from n 1 2 3 show ?thesis by simp
qed

text \<open>
  C5. When start and end are the same valid cell, \<^verbatim>\<open>findPath\<close> returns the one-element
  path holding that cell, with \<^verbatim>\<open>g = 0\<close> (and \<^verbatim>\<open>h = f = 0\<close>, no parent).
\<close>

theorem findPath_start_equals_end:
  assumes "valid_input a start start"
  shows "fst (findPath a start start) =
           Some (Inr (Some [\<lparr>node_x = fst start, node_y = snd start, node_g = 0, node_h = 0,
                             node_f = 0, node_parent = None\<rparr>]))"
proof -
  let ?a = "a\<lparr>endPos := Some start\<rparr>"
  let ?s0 = "initial_search start start"
  have h0: "calculateHeuristic start (fst start) (snd start) = 0"
    by (simp add: calculateHeuristic_def)
  have lb: "loop_body ?a start ?s0 = Inl (Inr (Some 0))"
    by (simp add: loop_body_def initial_search_def Let_def getMinFNode_def)
  have bp: "buildPath (nodes ?s0) 0 =
      Some [\<lparr>node_x = fst start, node_y = snd start, node_g = 0, node_h = 0,
                             node_f = 0, node_parent = None\<rparr>]"
    unfolding buildPath_def
    by (subst buildPath_from.simps, simp add: initial_search_def Let_def h0,
        subst buildPath_from.simps, simp)
  have "main_loop ?a start ?s0 = Some (Inr (Some [\<lparr>node_x = fst start, node_y = snd start, node_g = 0, node_h = 0,
                             node_f = 0, node_parent = None\<rparr>]))"
    by (subst main_loop.simps) (simp add: lb bp)
  then show ?thesis by (simp add: findPath_valid_input [OF assms])
qed

theorem findPath_start_equals_end_witness:
  "valid_input \<lparr>mapSize = 4, obstacles = {(1, 1)}, endPos = None\<rparr> (2, 3) (2, 3) \<and>
   fst (findPath \<lparr>mapSize = 4, obstacles = {(1, 1)}, endPos = None\<rparr> (2, 3) (2, 3)) =
     Some (Inr (Some [\<lparr>node_x = 2, node_y = 3, node_g = 0, node_h = 0, node_f = 0,
                       node_parent = None\<rparr>]))"
proof -
  have v: "valid_input \<lparr>mapSize = 4, obstacles = {(1, 1)}, endPos = None\<rparr> (2, 3) (2, 3)"
    by (simp add: valid_input_def isValidCoordinate_def)
  from findPath_start_equals_end [OF v] v show ?thesis by simp
qed

text \<open>
  C10. On a valid input the loop leaves after at most \<open>mapSize * mapSize\<close> expansions and
  \<^verbatim>\<open>findPath\<close> returns. After \<open>n\<close> expansions the closed set holds exactly \<open>n\<close>
  cells (each expansion closes a cell that was not closed before), all inside the map, and
  every node of the open list is a cell inside the map that is not closed.
\<close>

theorem findPath_terminates:
  assumes "valid_input a start e"
  shows "(\<exists>n sf r res. n \<le> nat (mapSize a) * nat (mapSize a) \<and>
            expansions n (a\<lparr>endPos := Some e\<rparr>) e (initial_search start e) = Some sf \<and>
            loop_body (a\<lparr>endPos := Some e\<rparr>) e sf = Inl r \<and>
            fst (findPath a start e) = Some res) \<and>
         (\<forall>n s. expansions n (a\<lparr>endPos := Some e\<rparr>) e (initial_search start e) = Some s \<longrightarrow>
            card (closedSet s) = n \<and> n \<le> nat (mapSize a) * nat (mapSize a) \<and>
            (\<forall>k\<in>closedSet s. isValidCoordinate a (fst k) (snd k)) \<and>
            (\<forall>r\<in>set (openList s).
               isValidCoordinate a (node_x (nodes s ! r)) (node_y (nodes s ! r)) \<and>
               (node_x (nodes s ! r), node_y (nodes s ! r)) \<notin> closedSet s))"
proof
  let ?a = "a\<lparr>endPos := Some e\<rparr>"
  from search_run [OF assms] obtain n sf where
    n: "n \<le> nat (mapSize a) * nat (mapSize a)"
    and run: "expansions n ?a e (initial_search start e) = Some sf"
    and inv: "search_inv ?a start sf"
    and fin: "(openList sf = [] \<and> loop_body ?a e sf = Inl (Inr None) \<and>
             fst (findPath a start e) = Some (Inr None)) \<or>
            (\<exists>r p. r \<in> set (openList sf) \<and> node_key (nodes sf ! r) = e \<and>
                   loop_body ?a e sf = Inl (Inr (Some r)) \<and>
                   buildPath (nodes sf) r = Some p \<and>
                   fst (findPath a start e) = Some (Inr (Some p)))"
    by blast
  from n run fin
  show "\<exists>n sf r res. n \<le> nat (mapSize a) * nat (mapSize a) \<and>
            expansions n ?a e (initial_search start e) = Some sf \<and>
            loop_body ?a e sf = Inl r \<and> fst (findPath a start e) = Some res"
    by blast
next
  let ?a = "a\<lparr>endPos := Some e\<rparr>"
  from assms have v': "valid_input ?a start e" by simp
  note i0 = search_inv_initial [OF v']
  show "\<forall>n s. expansions n ?a e (initial_search start e) = Some s \<longrightarrow>
            card (closedSet s) = n \<and> n \<le> nat (mapSize a) * nat (mapSize a) \<and>
            (\<forall>k\<in>closedSet s. isValidCoordinate a (fst k) (snd k)) \<and>
            (\<forall>r\<in>set (openList s).
               isValidCoordinate a (node_x (nodes s ! r)) (node_y (nodes s ! r)) \<and>
               (node_x (nodes s ! r), node_y (nodes s ! r)) \<notin> closedSet s)"
  proof (intro allI impI)
    fix n s assume run: "expansions n ?a e (initial_search start e) = Some s"
    from expansions_inv [OF i0(1,2) run] i0(3)
    have inv: "search_inv ?a start s" and card: "card (closedSet s) = n" by simp_all
    from closed_card_le [OF inv] card have le: "n \<le> nat (mapSize a) * nat (mapSize a)"
      by (simp add: card_cells)
    from inv have cl: "\<forall>k\<in>closedSet s. isValidCoordinate a (fst k) (snd k)"
      by (simp add: search_inv_def)
    have op: "\<forall>r\<in>set (openList s).
               isValidCoordinate a (node_x (nodes s ! r)) (node_y (nodes s ! r)) \<and>
               (node_x (nodes s ! r), node_y (nodes s ! r)) \<notin> closedSet s"
    proof
      fix r assume r: "r \<in> set (openList s)"
      with inv have "r < length (nodes s)" "node_key (nodes s ! r) \<notin> closedSet s"
        by (simp_all add: search_inv_def)
      moreover with inv have "wf_node ?a start s r" by (simp add: search_inv_def)
      ultimately show "isValidCoordinate a (node_x (nodes s ! r)) (node_y (nodes s ! r)) \<and>
               (node_x (nodes s ! r), node_y (nodes s ! r)) \<notin> closedSet s"
        by (simp add: wf_node_def isValidPosition_def node_key_def)
    qed
    from card le cl op show "card (closedSet s) = n \<and> n \<le> nat (mapSize a) * nat (mapSize a) \<and>
            (\<forall>k\<in>closedSet s. isValidCoordinate a (fst k) (snd k)) \<and>
            (\<forall>r\<in>set (openList s).
               isValidCoordinate a (node_x (nodes s ! r)) (node_y (nodes s ! r)) \<and>
               (node_x (nodes s ! r), node_y (nodes s ! r)) \<notin> closedSet s)"
      by blast
  qed
qed

text \<open>
  C2. The returned path is meant to be a shortest one. On the 7 by 7 grid with the single
  obstacle (3, 1), from (4, 0) to (0, 6), \<^verbatim>\<open>findPath\<close> returns a path of nine cells,
  eight steps, while the walk through (3, 0), (2, 1), (2, 2), (1, 3), (1, 4), (0, 5)
  reaches the end in seven steps.
\<close>

theorem findPath_not_shortest:
  "map_option (map_sum id (map_option (map node_key)))
     (fst (findPath \<lparr>mapSize = 7, obstacles = {(3, 1)}, endPos = None\<rparr> (4, 0) (0, 6)))
     = Some (Inr (Some [(4, 0), (4, 1), (4, 2), (3, 3), (3, 4), (2, 5), (1, 5), (1, 6), (0, 6)]))
   \<and> hex_path \<lparr>mapSize = 7, obstacles = {(3, 1)}, endPos = None\<rparr>
         [(4, 0), (3, 0), (2, 1), (2, 2), (1, 3), (1, 4), (0, 5), (0, 6)]"
  by code_simp

text \<open>
  C6. Without obstacles every cell of the map is reachable from every other one along the
  neighbour relation of the grid, and \<^verbatim>\<open>findPath\<close> returns a path for any two cells of
  the map, never \<^verbatim>\<open>null\<close>: a sequence of cells of the map that begins with the start,
  ends with the end and goes from each cell to one of its neighbours. Likewise the graph
  that \<^verbatim>\<open>createNodes\<close> builds from \<open>w * h\<close> free cells is connected: every node is
  reachable from every other one along the links.
\<close>

theorem findPath_obstacle_free:
  "(obstacles a = {} \<and> isValidCoordinate a (fst start) (snd start) \<and>
    isValidCoordinate a (fst e) (snd e) \<longrightarrow>
      reachable a start e \<and>
      (\<exists>p. fst (findPath a start e) = Some (Inr (Some p)) \<and> p \<noteq> [] \<and>
           node_key (hd p) = start \<and> node_key (last p) = e \<and> hex_path a (map node_key p) \<and>
           (\<forall>n\<in>set p. isValidCoordinate a (node_x n) (node_y n)))) \<and>
   (0 < w \<and> length data = w * h \<and> (\<forall>k<length data. data ! k = 0) \<and>
    i < length data \<and> j < length data \<longrightarrow>
      link_reach (createNodes w h data) i j)"
proof (intro conjI impI)
  assume h: "obstacles a = {} \<and> isValidCoordinate a (fst start) (snd start) \<and>
    isValidCoordinate a (fst e) (snd e)"
  then have v: "valid_input a start e" by (simp add: valid_input_def)
  from h show r: "reachable a start e" by (intro free_grid_connected) simp_all
  with findPath_null_iff [OF v] have "fst (findPath a start e) \<noteq> Some (Inr None)" by simp
  with search_run [OF v] obtain p where p: "fst (findPath a start e) = Some (Inr (Some p))"
    by auto
  from findPath_path_facts [OF p] p
  show "\<exists>p. fst (findPath a start e) = Some (Inr (Some p)) \<and> p \<noteq> [] \<and>
           node_key (hd p) = start \<and> node_key (last p) = e \<and> hex_path a (map node_key p) \<and>
           (\<forall>n\<in>set p. isValidCoordinate a (node_x n) (node_y n))"
    by blast
next
  assume "0 < w \<and> length data = w * h \<and> (\<forall>k<length data. data ! k = 0) \<and>
    i < length data \<and> j < length data"
  then show "link_reach (createNodes w h data) i j"
    by (intro free_graph_connected) simp_all
qed

theorem findPath_obstacle_free_witness:
  "reachable \<lparr>mapSize = 3, obstacles = {}, endPos = None\<rparr> (0, 0) (2, 2) \<and>
   (\<exists>p. fst (findPath \<lparr>mapSize = 3, obstacles = {}, endPos = None\<rparr> (0, 0) (2, 2)) =
          Some (Inr (Some p)) \<and> p \<noteq> [] \<and> node_key (hd p) = (0, 0) \<and> node_key (last p) = (2, 2) \<and>
        hex_path \<lparr>mapSize = 3, obstacles = {}, endPos = None\<rparr> (map node_key p)) \<and>
   link_reach (createNodes 2 2 [0, 0, 0, 0]) 3 0"
proof -
  let ?a = "\<lparr>mapSize = 3, obstacles = {}, endPos = None\<rparr>"
  have h: "obstacles ?a = {} \<and> isValidCoordinate ?a (fst (0, 0)) (snd (0, 0)) \<and>
    isValidCoordinate ?a (fst (2, 2)) (snd (2, 2))"
    by (simp add: isValidCoordinate_def)
  have g: "(0::nat) < 2 \<and> length [0, 0, 0, 0::int] = 2 * 2 \<and>
    (\<forall>k<length [0, 0, 0, 0::int]. [0, 0, 0, 0::int] ! k = 0) \<and>
    (3::nat) < length [0, 0, 0, 0::int] \<and> (0::nat) < length [0, 0, 0, 0::int]"
    by (simp add: nth_Cons' )
  from findPath_obstacle_free [of ?a "(0, 0)" "(2, 2)" 2 "[0, 0, 0, 0]" 2 3 0] h g
  show ?thesis by blast
qed

text \<open>
  C7. The result of \<^verbatim>\<open>findPath\<close> depends on the map size, the obstacle set, the start
  and the end only: not on the \<^verbatim>\<open>endPos\<close> left by an earlier call, so that a second
  call on the object the first one leaves returns the same. The node that
  \<^verbatim>\<open>getMinFNode\<close> selects is the first one of the list with the least \<^verbatim>\<open>f\<close>: every
  node before it has a strictly larger \<^verbatim>\<open>f\<close>. The list is in insertion order: removal
  takes one element out and keeps the order of the others, and a neighbour is added at
  the end, if at all.
\<close>

theorem findPath_deterministic:
  "(mapSize a = mapSize b \<and> obstacles a = obstacles b \<longrightarrow>
      fst (findPath a start e) = fst (findPath b start e)) \<and>
   fst (findPath (snd (findPath a start e)) start e) = fst (findPath a start e) \<and>
   (getMinFNode st l = Some r \<longrightarrow>
      (\<exists>i<length l. l ! i = r \<and>
         (\<forall>j<length l. node_f (st ! r) \<le> node_f (st ! (l ! j))) \<and>
         (\<forall>j<i. node_f (st ! r) < node_f (st ! (l ! j))))) \<and>
   (\<exists>i. removeFromOpenList st l n = take i l @ drop (Suc i) l) \<and>
   openList (visitNeighbor e cur s nb) \<in> {openList s, openList s @ [length (nodes s)]}"
proof (intro conjI impI)
  assume "mapSize a = mapSize b \<and> obstacles a = obstacles b"
  then have "b = a\<lparr>endPos := endPos b\<rparr>" by simp
  then obtain ep where b: "b = a\<lparr>endPos := ep\<rparr>" ..
  show "fst (findPath a start e) = fst (findPath b start e)"
    unfolding b findPath_def by (simp add: Let_def)
next
  have "snd (findPath a start e) = a \<or> snd (findPath a start e) = a\<lparr>endPos := Some e\<rparr>"
    by (simp add: findPath_def Let_def)
  then obtain ep where b: "snd (findPath a start e) = a\<lparr>endPos := ep\<rparr>"
    by (metis AStar.update_convs(3) AStar.surjective AStar.select_convs(3))
  show "fst (findPath (snd (findPath a start e)) start e) = fst (findPath a start e)"
    unfolding b unfolding findPath_def by (simp add: Let_def)
next
  assume g: "getMinFNode st l = Some r"
  then obtain m rs where l: "l = m # rs" and r: "r = scan_min st m rs"
    by (auto simp: getMinFNode_def split: list.splits)
  from scan_min_first [of m rs st] show "\<exists>i<length l. l ! i = r \<and>
         (\<forall>j<length l. node_f (st ! r) \<le> node_f (st ! (l ! j))) \<and>
         (\<forall>j<i. node_f (st ! r) < node_f (st ! (l ! j)))"
    unfolding l r .
next
  show "\<exists>i. removeFromOpenList st l n = take i l @ drop (Suc i) l"
    by (rule removeFromOpenList_order)
next
  show "openList (visitNeighbor e cur s nb) \<in> {openList s, openList s @ [length (nodes s)]}"
    by (cases rule: visitNeighbor_cases [of nb s e cur]) simp_all
qed

theorem findPath_deterministic_witness:
  "fst (findPath \<lparr>mapSize = 3, obstacles = {(1, 1)}, endPos = None\<rparr> (0, 0) (2, 2)) =
   fst (findPath \<lparr>mapSize = 3, obstacles = {(1, 1)}, endPos = Some (0, 1)\<rparr> (0, 0) (2, 2))
   \<and> getMinFNode [fresh_node 0 0\<lparr>node_f := 2\<rparr>, fresh_node 1 0\<lparr>node_f := 1\<rparr>,
                    fresh_node 0 1\<lparr>node_f := 1\<rparr>] [0, 1, 2] = Some 1"
proof -
  let ?a = "\<lparr>mapSize = 3, obstacles = {(1, 1)}, endPos = None\<rparr>"
  let ?b = "\<lparr>mapSize = 3, obstacles = {(1, 1)}, endPos = Some (0, 1)\<rparr>"
  let ?st = "[fresh_node 0 0\<lparr>node_f := 2\<rparr>, fresh_node 1 0\<lparr>node_f := 1\<rparr>,
                    fresh_node 0 1\<lparr>node_f := 1\<rparr>]"
  have h: "mapSize ?a = mapSize ?b \<and> obstacles ?a = obstacles ?b" by simp
  have g: "getMinFNode ?st [0, 1, 2] = Some 1" by code_simp
  from findPath_deterministic [of ?a ?b "(0, 0)" "(2, 2)" ?st "[0, 1, 2]" 1] h g
  show ?thesis by blast
qed

theorem findPath_terminates_witness:
  "valid_input \<lparr>mapSize = 3, obstacles = {(1, 1)}, endPos = None\<rparr> (0, 0) (2, 2) \<and>
   (\<exists>n sf r res. n \<le> 9 \<and>
      expansions n \<lparr>mapSize = 3, obstacles = {(1, 1)}, endPos = Some (2, 2)\<rparr> (2, 2)
        (initial_search (0, 0) (2, 2)) = Some sf \<and>
      loop_body \<lparr>mapSize = 3, obstacles = {(1, 1)}, endPos = Some (2, 2)\<rparr> (2, 2) sf = Inl r \<and>
      fst (findPath \<lparr>mapSize = 3, obstacles = {(1, 1)}, endPos = None\<rparr> (0, 0) (2, 2)) = Some res)"
proof -
  have v: "valid_input \<lparr>mapSize = 3, obstacles = {(1, 1)}, endPos = None\<rparr> (0, 0) (2, 2)"
    by (simp add: valid_input_def isValidCoordinate_def)
  from findPath_terminates [OF v] v show ?thesis by simp
qed

text \<open>
  C8. \<^verbatim>\<open>search\<close> is meant to return the sequence of nodes from the end back to the start,
  or \<^verbatim>\<open>null\<close> when the buckets are exhausted. On the free 2 by 2 grid, from node 2, the
  cell (0, 1), to node 1, the cell (1, 0), it does neither: node 1 is a link of node 2 (up
  and to the right), its bucket index is 0 + 1 - 2 = -1, and \<^verbatim>\<open>search\<close> raises a TypeError.
  And \<^verbatim>\<open>search_token\<close> is never incremented: on the free 2 by 1 grid the search from
  node 0 to node 1 returns the sequence of node 1, and the same search on the nodes that
  this one leaves returns \<^verbatim>\<open>null\<close>, although node 1 is still a link of node 0.
\<close>

theorem search_raises_TypeError:
  "map_option fst (search 1 (createNodes 2 2 [0, 0, 0, 0]) 2 1) = Some (Inl TypeError) \<and>
   1 \<in> set (mn_nodes (createNodes 2 2 [0, 0, 0, 0] ! 2)) \<and>
   map_option fst (search 1 (createNodes 2 1 [0, 0]) 0 1) = Some (Inr (Some [1])) \<and>
   1 \<in> set (mn_nodes (snd (the (search 1 (createNodes 2 1 [0, 0]) 0 1)) ! 0)) \<and>
   map_option fst (search 1 (snd (the (search 1 (createNodes 2 1 [0, 0]) 0 1))) 0 1) = Some (Inr None)"
  by code_simp

text \<open>
  C9. The two searches are meant to agree, on the same graph with the same start and end, on
  whether there is a path and on the number of its steps. On the 2 by 2 map with the
  obstacles (0, 1) and (1, 1) the two free cells (0, 0) and (1, 0) have the same neighbours
  for \<^verbatim>\<open>getNeighbors\<close> as along the links of \<^verbatim>\<open>createNodes\<close>, namely each other.
  \<^verbatim>\<open>findPath\<close> returns the path (0, 0), (1, 0), and the first \<^verbatim>\<open>search\<close> from node 0 to
  node 1 returns the sequence of node 1: one step each. But \<^verbatim>\<open>search_token\<close> is never
  incremented, so the same \<^verbatim>\<open>search\<close> on the nodes that the first one leaves, with their
  links unchanged, finds every node stamped already and returns \<^verbatim>\<open>null\<close>: the two
  searches disagree on whether a path exists.
\<close>

theorem second_search_disagrees:
  "map_option (map_sum id (map_option (map node_key)))
     (fst (findPath \<lparr>mapSize = 2, obstacles = {(0, 1), (1, 1)}, endPos = None\<rparr> (0, 0) (1, 0)))
     = Some (Inr (Some [(0, 0), (1, 0)])) \<and>
   map (cell 2) (node_links 2 2 [0, 0, 1, 1] 0) =
     neighbor_keys \<lparr>mapSize = 2, obstacles = {(0, 1), (1, 1)}, endPos = None\<rparr> (0, 0) \<and>
   map (cell 2) (node_links 2 2 [0, 0, 1, 1] 1) =
     neighbor_keys \<lparr>mapSize = 2, obstacles = {(0, 1), (1, 1)}, endPos = None\<rparr> (1, 0) \<and>
   map_option fst (search 1 (createNodes 2 2 [0, 0, 1, 1]) 0 1) = Some (Inr (Some [1])) \<and>
   map mn_nodes (snd (the (search 1 (createNodes 2 2 [0, 0, 1, 1]) 0 1))) =
     map mn_nodes (createNodes 2 2 [0, 0, 1, 1]) \<and>
   map_option fst (search 1 (snd (the (search 1 (createNodes 2 2 [0, 0, 1, 1]) 0 1))) 0 1)
     = Some (Inr None)"
  by code_simp

end
